theory Spec2Isabelle
  imports Complex_Main "HOL-Library.Dlist" "HOL-Library.Monad_Syntax" "HOL-Library.Multiset"
begin

section \<open>The data model of \<^verbatim>\<open>set.go\<close>\<close>

text \<open>
  The package keeps every set behind a pointer \<^verbatim>\<open>*Set[T]\<close>, and its functions
  allocate, read and mutate sets through such pointers. The model therefore has an
  explicit heap: a list of set objects. A pointer is \<^verbatim>\<open>nil\<close> or the index of an
  object in the heap. (An index at or beyond the end of the heap is not a value that a
  Go program can hold; the model treats it like \<^verbatim>\<open>nil\<close>.)
\<close>

type_synonym addr = nat

datatype ptr = Nil | Ptr addr

text \<open>
  \<^verbatim>\<open>sync.RWMutex\<close> belongs to Go's standard library. Its state is modelled from its
  documentation: a count of read holders and a flag for the write holder.
\<close>

record RWMutex =
  readers :: nat
  writer :: bool

text \<open>
  The element type \<^verbatim>\<open>T\<close> is any \<^verbatim>\<open>comparable\<close> type of Go. On such a type
  \<^verbatim>\<open>==\<close> need not be reflexive: a floating-point NaN, and every struct, array or
  interface value that holds one, is different from every value, itself included. A value
  of \<^verbatim>\<open>T\<close> is therefore either \<open>Key x\<close>, a value that is equal to itself, or
  \<open>NaN x\<close>, one that is not. The values that are equal to themselves are taken up to
  \<^verbatim>\<open>==\<close>: \<open>Key x\<close> and \<open>Key y\<close> are \<^verbatim>\<open>==\<close> exactly when \<open>x = y\<close>. No other
  two values are \<^verbatim>\<open>==\<close>.
\<close>

datatype 'a key = Key 'a | NaN 'a

fun eq_key :: "'a key \<Rightarrow> 'a key \<Rightarrow> bool" where
  "eq_key (Key x) (Key y) = (x = y)"
| "eq_key (Key x) (NaN y) = False"
| "eq_key (NaN x) e = False"

text \<open>
  \<^verbatim>\<open>map[T]struct{}\<close>. The values of the map carry no information, so a map is the
  list of its entries, in the order in which a \<^verbatim>\<open>range\<close> over it visits them. Go
  leaves that order open; nothing below fixes it, since every statement is proved for all
  maps. A map holds at most one entry for a key that is equal to itself, \<open>Entry x\<close> for
  the key \<open>Key x\<close>. It may hold any number of entries whose key is not equal to itself:
  \<open>Stray n x\<close> is such an entry, for the key \<open>NaN x\<close>; the number \<open>n\<close> tells the
  entries of one map apart and is not visible to the program.
\<close>

datatype 'a entry = Entry 'a | Stray nat 'a

fun key_of :: "'a entry \<Rightarrow> 'a key" where
  "key_of (Entry x) = Key x"
| "key_of (Stray n x) = NaN x"

text \<open>
  \<^verbatim>\<open>_, ok := m[e]\<close>: \<open>ok\<close> is true when the map has an entry whose key is
  \<^verbatim>\<open>==\<close> to \<open>e\<close>.
\<close>

definition map_index :: "'a entry dlist \<Rightarrow> 'a key \<Rightarrow> bool" where
  "map_index T e = list_ex (\<lambda>x. eq_key (key_of x) e) (list_of_dlist T)"

text \<open>
  \<^verbatim>\<open>m[e] = struct{}{}\<close>: when the map has an entry whose key is \<^verbatim>\<open>==\<close> to \<open>e\<close>,
  the value of that entry is overwritten, which leaves the map as it was; otherwise the
  map gets a new entry. For a key that is not equal to itself this is always the case,
  and the new entry gets a number that no entry of the map has.
\<close>

fun serial :: "'a entry \<Rightarrow> nat" where
  "serial (Entry x) = 0"
| "serial (Stray n x) = Suc n"

definition unused :: "'a entry dlist \<Rightarrow> nat" where
  "unused T = fold (\<lambda>x n. max (serial x) n) (list_of_dlist T) 0"

fun new_entry :: "'a entry dlist \<Rightarrow> 'a key \<Rightarrow> 'a entry" where
  "new_entry T (Key x) = Entry x"
| "new_entry T (NaN x) = Stray (unused T) x"

definition map_assign :: "'a key \<Rightarrow> 'a entry dlist \<Rightarrow> 'a entry dlist" where
  "map_assign e T = (if map_index T e then T else Dlist.insert (new_entry T e) T)"

text \<open>\<^verbatim>\<open>delete(m, e)\<close> removes the entry whose key is \<^verbatim>\<open>==\<close> to \<open>e\<close>, if there is one.\<close>

definition map_delete :: "'a key \<Rightarrow> 'a entry dlist \<Rightarrow> 'a entry dlist" where
  "map_delete e T = Dlist.filter (\<lambda>x. \<not> eq_key (key_of x) e) T"

text \<open>
  \<^verbatim>\<open>type Set[T comparable] struct { m map[T]struct{}; mu sync.RWMutex }\<close>.
  Every set object has been made by \<^verbatim>\<open>New\<close>, the only constructor (section 3 of the
  specification), so its map is never \<^verbatim>\<open>nil\<close>.
\<close>

record 'a Set =
  m :: "'a entry dlist"
  mu :: RWMutex

text \<open>
  Calls of the mutex methods and lookups \<^verbatim>\<open>_, ok := s.m[e]\<close> are recorded, in
  program order, in a history that the functions extend. The history has no influence
  on any result; it makes the order of lock acquisitions and the number of membership
  probes visible to the theorems.
\<close>

datatype 'a event =
  RLocked ptr | RUnlocked ptr | Locked ptr | Unlocked ptr | Probed ptr "'a key"

record 'a world =
  heap :: "'a Set list"
  events :: "'a event list"

text \<open>
  Reading and writing through a pointer. Through \<^verbatim>\<open>nil\<close> both panic, which the model
  writes as \<open>None\<close>.
\<close>

fun deref :: "ptr \<Rightarrow> 'a world \<Rightarrow> 'a Set option" where
  "deref Nil w = None"
| "deref (Ptr a) w = (if a < length (heap w) then Some (heap w ! a) else None)"

fun assign :: "ptr \<Rightarrow> 'a Set \<Rightarrow> 'a world \<Rightarrow> 'a world option" where
  "assign Nil s w = None"
| "assign (Ptr a) s w =
     (if a < length (heap w) then Some (w\<lparr>heap := (heap w)[a := s]\<rparr>) else None)"

definition emit :: "'a event \<Rightarrow> 'a world \<Rightarrow> 'a world" where
  "emit ev w = w\<lparr>events := events w @ [ev]\<rparr>"

subsection \<open>The mutex\<close>

text \<open>
  The model runs one caller at a time. A call that would wait for a lock held by
  somebody else never returns in such a run, and unlocking a mutex that is not locked is
  a fatal error of the Go runtime: both are \<open>None\<close>.
\<close>

definition mu_RLock :: "RWMutex \<Rightarrow> RWMutex option" where
  "mu_RLock x = (if writer x then None else Some (x\<lparr>readers := Suc (readers x)\<rparr>))"

definition mu_RUnlock :: "RWMutex \<Rightarrow> RWMutex option" where
  "mu_RUnlock x = (if readers x = 0 then None else Some (x\<lparr>readers := readers x - 1\<rparr>))"

definition mu_Lock :: "RWMutex \<Rightarrow> RWMutex option" where
  "mu_Lock x = (if writer x \<or> readers x \<noteq> 0 then None else Some (x\<lparr>writer := True\<rparr>))"

definition mu_Unlock :: "RWMutex \<Rightarrow> RWMutex option" where
  "mu_Unlock x = (if writer x then Some (x\<lparr>writer := False\<rparr>) else None)"

definition RLock :: "ptr \<Rightarrow> 'a world \<Rightarrow> 'a world option" where
  "RLock p w = do {
     s \<leftarrow> deref p w;
     x \<leftarrow> mu_RLock (mu s);
     w1 \<leftarrow> assign p (s\<lparr>mu := x\<rparr>) w;
     Some (emit (RLocked p) w1) }"

definition RUnlock :: "ptr \<Rightarrow> 'a world \<Rightarrow> 'a world option" where
  "RUnlock p w = do {
     s \<leftarrow> deref p w;
     x \<leftarrow> mu_RUnlock (mu s);
     w1 \<leftarrow> assign p (s\<lparr>mu := x\<rparr>) w;
     Some (emit (RUnlocked p) w1) }"

definition Lock :: "ptr \<Rightarrow> 'a world \<Rightarrow> 'a world option" where
  "Lock p w = do {
     s \<leftarrow> deref p w;
     x \<leftarrow> mu_Lock (mu s);
     w1 \<leftarrow> assign p (s\<lparr>mu := x\<rparr>) w;
     Some (emit (Locked p) w1) }"

definition Unlock :: "ptr \<Rightarrow> 'a world \<Rightarrow> 'a world option" where
  "Unlock p w = do {
     s \<leftarrow> deref p w;
     x \<leftarrow> mu_Unlock (mu s);
     w1 \<leftarrow> assign p (s\<lparr>mu := x\<rparr>) w;
     Some (emit (Unlocked p) w1) }"

subsection \<open>The map of a set\<close>

text \<open>\<^verbatim>\<open>_, ok := s.m[e]\<close>; the history records the lookup.\<close>

definition lookup :: "ptr \<Rightarrow> 'a key \<Rightarrow> 'a world \<Rightarrow> (bool \<times> 'a world) option" where
  "lookup p e w = do {
     s \<leftarrow> deref p w;
     Some (map_index (m s) e, emit (Probed p e) w) }"

text \<open>\<^verbatim>\<open>s.m[e] = struct{}{}\<close>\<close>

definition store :: "ptr \<Rightarrow> 'a key \<Rightarrow> 'a world \<Rightarrow> 'a world option" where
  "store p e w = do {
     s \<leftarrow> deref p w;
     assign p (s\<lparr>m := map_assign e (m s)\<rparr>) w }"

text \<open>\<^verbatim>\<open>delete(s.m, e)\<close>\<close>

definition erase :: "ptr \<Rightarrow> 'a key \<Rightarrow> 'a world \<Rightarrow> 'a world option" where
  "erase p e w = do {
     s \<leftarrow> deref p w;
     assign p (s\<lparr>m := map_delete e (m s)\<rparr>) w }"

text \<open>\<^verbatim>\<open>len(s.m)\<close>, the number of entries.\<close>

definition len :: "ptr \<Rightarrow> 'a world \<Rightarrow> nat option" where
  "len p w = do { s \<leftarrow> deref p w; Some (Dlist.length (m s)) }"

text \<open>The keys that \<^verbatim>\<open>for e := range s.m\<close> visits, in the order of the visit.\<close>

definition keys :: "ptr \<Rightarrow> 'a world \<Rightarrow> 'a key list option" where
  "keys p w = do { s \<leftarrow> deref p w; Some (map key_of (list_of_dlist (m s))) }"

section \<open>The functions of the package\<close>

text \<open>\<^verbatim>\<open>New\<close>: a fresh object with an empty map and a mutex in its zero state.\<close>

definition New :: "'a world \<Rightarrow> ptr \<times> 'a world" where
  "New w =
     (Ptr (length (heap w)),
      w\<lparr>heap := heap w @ [\<lparr>m = Dlist.empty, mu = \<lparr>readers = 0, writer = False\<rparr>\<rparr>]\<rparr>)"

definition Put :: "ptr \<Rightarrow> 'a key \<Rightarrow> 'a world \<Rightarrow> 'a world option" where
  "Put s e w = do {
     w1 \<leftarrow> Lock s w;
     w2 \<leftarrow> store s e w1;
     Unlock s w2 }"

definition Delete :: "ptr \<Rightarrow> 'a key \<Rightarrow> 'a world \<Rightarrow> 'a world option" where
  "Delete s e w = do {
     w1 \<leftarrow> Lock s w;
     w2 \<leftarrow> erase s e w1;
     Unlock s w2 }"

definition Has :: "ptr \<Rightarrow> 'a key \<Rightarrow> 'a world \<Rightarrow> (bool \<times> 'a world) option" where
  "Has s e w = do {
     w1 \<leftarrow> RLock s w;
     (ok, w2) \<leftarrow> lookup s e w1;
     w3 \<leftarrow> RUnlock s w2;
     Some (ok, w3) }"

definition Len :: "ptr \<Rightarrow> 'a world \<Rightarrow> (nat \<times> 'a world) option" where
  "Len s w = do {
     w1 \<leftarrow> RLock s w;
     l \<leftarrow> len s w1;
     w2 \<leftarrow> RUnlock s w1;
     Some (l, w2) }"

text \<open>
  \<^verbatim>\<open>Range\<close> takes the read lock, calls \<open>f\<close> on the members for as long as it returns
  true, and releases the lock on return (\<^verbatim>\<open>defer\<close>). The callback is a Go closure:
  it may write to variables it has captured, so in the model it transforms the world.
\<close>

fun Range_loop ::
  "('a key \<Rightarrow> 'a world \<Rightarrow> (bool \<times> 'a world) option) \<Rightarrow> 'a key list \<Rightarrow> 'a world \<Rightarrow> 'a world option"
where
  "Range_loop f [] w = Some w"
| "Range_loop f (e # es) w = do {
     (continue, w1) \<leftarrow> f e w;
     if \<not> continue then Some w1 else Range_loop f es w1 }"

definition Range_Set ::
  "ptr \<Rightarrow> ('a key \<Rightarrow> 'a world \<Rightarrow> (bool \<times> 'a world) option) \<Rightarrow> 'a world \<Rightarrow> 'a world option"
where
  "Range_Set s f w = do {
     w1 \<leftarrow> RLock s w;
     ks \<leftarrow> keys s w1;
     w2 \<leftarrow> Range_loop f ks w1;
     RUnlock s w2 }"

text \<open>
  \<^verbatim>\<open>Intersection\<close>. The first loop read-locks every input and keeps the one with the
  fewest members; the second, labelled \<^verbatim>\<open>next\<close>, ranges over that one and probes all
  inputs for each of its members, leaving the inner loop at the first miss. The deferred
  unlocks run last, in the reverse order of the locks.
\<close>

fun smallest_loop :: "ptr \<Rightarrow> ptr list \<Rightarrow> 'a world \<Rightarrow> (ptr \<times> 'a world) option" where
  "smallest_loop smallest [] w = Some (smallest, w)"
| "smallest_loop smallest (s # ss) w = do {
     w1 \<leftarrow> RLock s w;
     ls \<leftarrow> len s w1;
     lsmallest \<leftarrow> len smallest w1;
     smallest_loop (if ls < lsmallest then s else smallest) ss w1 }"

fun probe_all :: "'a key \<Rightarrow> ptr list \<Rightarrow> 'a world \<Rightarrow> (bool \<times> 'a world) option" where
  "probe_all e [] w = Some (True, w)"
| "probe_all e (s # ss) w = do {
     (ok, w1) \<leftarrow> lookup s e w;
     if \<not> ok then Some (False, w1) else probe_all e ss w1 }"

fun next_loop :: "ptr \<Rightarrow> ptr list \<Rightarrow> 'a key list \<Rightarrow> 'a world \<Rightarrow> 'a world option" where
  "next_loop i sets [] w = Some w"
| "next_loop i sets (e # es) w = do {
     (in_all, w1) \<leftarrow> probe_all e sets w;
     w2 \<leftarrow> (if in_all then store i e w1 else Some w1);
     next_loop i sets es w2 }"

fun run_deferred :: "ptr list \<Rightarrow> 'a world \<Rightarrow> 'a world option" where
  "run_deferred [] w = Some w"
| "run_deferred (s # ss) w = do { w1 \<leftarrow> RUnlock s w; run_deferred ss w1 }"

definition Intersection :: "ptr list \<Rightarrow> 'a world \<Rightarrow> (ptr \<times> 'a world) option" where
  "Intersection sets w =
     (let (i, w0) = New w in
      case sets of
        [] \<Rightarrow> Some (i, w0)
      | s0 # _ \<Rightarrow> do {
          (smallest, w1) \<leftarrow> smallest_loop s0 sets w0;
          ks \<leftarrow> keys smallest w1;
          w2 \<leftarrow> next_loop i sets ks w1;
          w3 \<leftarrow> run_deferred (rev sets) w2;
          Some (i, w3) })"

text \<open>\<^verbatim>\<open>Union\<close>: every input is ranged over, each member is stored in \<open>u\<close>.\<close>

fun Union_loop :: "ptr \<Rightarrow> ptr list \<Rightarrow> 'a world \<Rightarrow> 'a world option" where
  "Union_loop u [] w = Some w"
| "Union_loop u (s # ss) w = do {
     w1 \<leftarrow> Range_Set s (\<lambda>e v. do { v1 \<leftarrow> store u e v; Some (True, v1) }) w;
     Union_loop u ss w1 }"

definition Union_Set :: "ptr list \<Rightarrow> 'a world \<Rightarrow> (ptr \<times> 'a world) option" where
  "Union_Set sets w =
     (let (u, w0) = New w in do {
        w1 \<leftarrow> Union_loop u sets w0;
        Some (u, w1) })"

definition Copy :: "ptr \<Rightarrow> 'a world \<Rightarrow> (ptr \<times> 'a world) option" where
  "Copy s w =
     (let (c, w0) = New w in do {
        w1 \<leftarrow> Range_Set s (\<lambda>e v. do { v1 \<leftarrow> store c e v; Some (True, v1) }) w0;
        Some (c, w1) })"

text \<open>\<^verbatim>\<open>Diff\<close> read-locks \<open>t\<close> first, then ranges over \<open>s\<close> (which read-locks \<open>s\<close>).\<close>

definition Diff :: "ptr \<Rightarrow> ptr \<Rightarrow> 'a world \<Rightarrow> (ptr \<times> 'a world) option" where
  "Diff s t w = do {
     w1 \<leftarrow> RLock t w;
     (d, w2) \<leftarrow> Some (New w1);
     w3 \<leftarrow> Range_Set s (\<lambda>e v. do {
             (ok, v1) \<leftarrow> lookup t e v;
             v2 \<leftarrow> (if \<not> ok then store d e v1 else Some v1);
             Some (True, v2) }) w2;
     w4 \<leftarrow> RUnlock t w3;
     Some (d, w4) }"

text \<open>
  \<^verbatim>\<open>Subset\<close> and \<^verbatim>\<open>Equal\<close> end in the same loop: range over \<open>s.m\<close> and return
  false at the first member that \<open>t.m\<close> lacks.
\<close>

fun all_in_loop :: "ptr \<Rightarrow> 'a key list \<Rightarrow> 'a world \<Rightarrow> (bool \<times> 'a world) option" where
  "all_in_loop t [] w = Some (True, w)"
| "all_in_loop t (e # es) w = do {
     (ok, w1) \<leftarrow> lookup t e w;
     if \<not> ok then Some (False, w1) else all_in_loop t es w1 }"

definition Subset :: "ptr \<Rightarrow> ptr \<Rightarrow> 'a world \<Rightarrow> (bool \<times> 'a world) option" where
  "Subset s t w = do {
     w1 \<leftarrow> RLock s w;
     w2 \<leftarrow> RLock t w1;
     ks \<leftarrow> keys s w2;
     (r, w3) \<leftarrow> all_in_loop t ks w2;
     w4 \<leftarrow> RUnlock t w3;
     w5 \<leftarrow> RUnlock s w4;
     Some (r, w5) }"

definition Equal :: "ptr \<Rightarrow> ptr \<Rightarrow> 'a world \<Rightarrow> (bool \<times> 'a world) option" where
  "Equal s t w = do {
     w1 \<leftarrow> RLock s w;
     w2 \<leftarrow> RLock t w1;
     ls \<leftarrow> len s w2;
     lt \<leftarrow> len t w2;
     (r, w3) \<leftarrow> (if ls \<noteq> lt then Some (False, w2)
                 else do { ks \<leftarrow> keys s w2; all_in_loop t ks w2 });
     w4 \<leftarrow> RUnlock t w3;
     w5 \<leftarrow> RUnlock s w4;
     Some (r, w5) }"

section \<open>The vocabulary of the statements\<close>

text \<open>
  A set can be read when its pointer can be dereferenced and nobody holds its write lock;
  it is unlocked when, moreover, nobody holds a read lock. Between two calls of a single
  caller every set is unlocked.
\<close>

definition readable :: "ptr \<Rightarrow> 'a world \<Rightarrow> bool" where
  "readable p w = (case deref p w of None \<Rightarrow> False | Some s \<Rightarrow> \<not> writer (mu s))"

definition unlocked :: "ptr \<Rightarrow> 'a world \<Rightarrow> bool" where
  "unlocked p w =
     (case deref p w of None \<Rightarrow> False | Some s \<Rightarrow> mu s = \<lparr>readers = 0, writer = False\<rparr>)"

text \<open>The call \<open>p\<close> returns, and the value it returns is \<open>r\<close>.\<close>

definition returns :: "('r \<times> 'a world) option \<Rightarrow> 'r \<Rightarrow> bool" where
  "returns p r = (case p of None \<Rightarrow> False | Some (r', w') \<Rightarrow> r' = r)"

text \<open>Membership as a caller observes it: \<^verbatim>\<open>a.Has(e)\<close> returns true.\<close>

definition contains :: "'a world \<Rightarrow> ptr \<Rightarrow> 'a key \<Rightarrow> bool" where
  "contains w p e = returns (Has p e w) True"

text \<open>
  Every key of the set is equal to itself: the \<^verbatim>\<open>range\<close> over its map visits no NaN
  and no value that holds one. This is so for every set of an element type on which
  \<^verbatim>\<open>==\<close> is reflexive, such as the integers and the strings.
\<close>

definition reflexive_keys :: "ptr \<Rightarrow> 'a world \<Rightarrow> bool" where
  "reflexive_keys p w =
     (case keys p w of None \<Rightarrow> False | Some ks \<Rightarrow> list_all (\<lambda>e. eq_key e e) ks)"

text \<open>A sequence of mutations of one set, run through \<^verbatim>\<open>Put\<close> and \<^verbatim>\<open>Delete\<close>.\<close>

datatype 'a mutation = Insert "'a key" | Remove "'a key"

fun mutate :: "ptr \<Rightarrow> 'a mutation list \<Rightarrow> 'a world \<Rightarrow> 'a world option" where
  "mutate p [] w = Some w"
| "mutate p (Insert e # ops) w = do { w1 \<leftarrow> Put p e w; mutate p ops w1 }"
| "mutate p (Remove e # ops) w = do { w1 \<leftarrow> Delete p e w; mutate p ops w1 }"

text \<open>The part of the history that a call has added, and the locks taken and given back in it.\<close>

definition new_events :: "'a world \<Rightarrow> 'a world \<Rightarrow> 'a event list" where
  "new_events w w' = drop (length (events w)) (events w')"

fun acquired :: "'a event list \<Rightarrow> ptr list" where
  "acquired [] = []"
| "acquired (RLocked p # evs) = p # acquired evs"
| "acquired (Locked p # evs) = p # acquired evs"
| "acquired (ev # evs) = acquired evs"

fun released :: "'a event list \<Rightarrow> ptr list" where
  "released [] = []"
| "released (RUnlocked p # evs) = p # released evs"
| "released (Unlocked p # evs) = p # released evs"
| "released (ev # evs) = released evs"

definition acquired_by :: "('a world \<Rightarrow> ('r \<times> 'a world) option) \<Rightarrow> 'a world \<Rightarrow> ptr list" where
  "acquired_by p w = (case p w of None \<Rightarrow> [] | Some (r, w') \<Rightarrow> acquired (new_events w w'))"

definition released_by :: "('a world \<Rightarrow> ('r \<times> 'a world) option) \<Rightarrow> 'a world \<Rightarrow> ptr list" where
  "released_by p w = (case p w of None \<Rightarrow> [] | Some (r, w') \<Rightarrow> released (new_events w w'))"

text \<open>
  The plain intersection of the specification, on membership predicates: \<open>e\<close> is in it
  when there is at least one set and every set has \<open>e\<close>. (The specification fixes the
  intersection of no sets to be empty.)
\<close>

definition Intersection_spec :: "('a \<Rightarrow> bool) list \<Rightarrow> 'a \<Rightarrow> bool" where
  "Intersection_spec ps e = (ps \<noteq> [] \<and> list_all (\<lambda>p. p e) ps)"

text \<open>
  The result of a call is a new set, detached from the inputs: the call returns an
  object \<open>r\<close> that was not allocated before; mutating \<open>r\<close> afterwards leaves what
  every input contained, and mutating an input afterwards leaves what \<open>r\<close> contains.
\<close>

definition fresh_result :: "(ptr \<times> 'a world) option \<Rightarrow> ptr list \<Rightarrow> 'a world \<Rightarrow> bool" where
  "fresh_result res inputs w =
     (\<exists>r w1. res = Some (r, w1) \<and> deref r w = None
        \<and> (\<forall>ops. \<exists>w2. mutate r ops w1 = Some w2
               \<and> (\<forall>a\<in>set inputs. \<forall>e. returns (Has a e w2) (contains w a e)))
        \<and> (\<forall>a\<in>set inputs. \<forall>ops. \<exists>w2. mutate a ops w1 = Some w2
               \<and> (\<forall>e. returns (Has r e w2) (contains w1 r e))))"

text \<open>
  The sets of the package's test, for concrete instances: \<open>s\<close> at \<open>Ptr 0\<close>, \<open>t\<close> at
  \<open>Ptr 1\<close> and \<open>u\<close> at \<open>Ptr 2\<close> (the test's first city is written in ASCII here).
\<close>

definition cities :: "string world" where
  "cities =
     \<lparr>heap =
        [\<lparr>m = Dlist [Entry ''zurich'', Entry ''sofia'', Entry ''dresden'', Entry ''turin'', Entry ''lyon'', Entry ''london''],
          mu = \<lparr>readers = 0, writer = False\<rparr>\<rparr>,
         \<lparr>m = Dlist [Entry ''york'', Entry ''zurich'', Entry ''turin'', Entry ''london''],
          mu = \<lparr>readers = 0, writer = False\<rparr>\<rparr>,
         \<lparr>m = Dlist [Entry ''bern'', Entry ''london''],
          mu = \<lparr>readers = 0, writer = False\<rparr>\<rparr>],
      events = []\<rparr>"

text \<open>
  Two sets of floating-point numbers, for the instances with a NaN: at \<open>Ptr 0\<close> the
  set \<open>{2.5, NaN}\<close>, whose map is the empty map after \<^verbatim>\<open>m[2.5] = struct{}{}\<close> and
  \<^verbatim>\<open>m[math.NaN()] = struct{}{}\<close>, and at \<open>Ptr 1\<close> the empty set.
\<close>

definition floats :: "real world" where
  "floats =
     \<lparr>heap =
        [\<lparr>m = map_assign (NaN 0) (map_assign (Key 2.5) Dlist.empty),
          mu = \<lparr>readers = 0, writer = False\<rparr>\<rparr>,
         \<lparr>m = Dlist.empty, mu = \<lparr>readers = 0, writer = False\<rparr>\<rparr>],
      events = []\<rparr>"

text \<open>
  The package's test \<^verbatim>\<open>TestStuff\<close>, run from the empty heap. It returns the
  five values that the test checks: \<^verbatim>\<open>i.Has("london")\<close>, \<^verbatim>\<open>i.Len()\<close>,
  \<^verbatim>\<open>s.Equal(s.Copy())\<close>, \<^verbatim>\<open>s.Equal(i)\<close> and \<^verbatim>\<open>ct.Subset(s)\<close>. The
  results of the three calls in between are only logged by the test. (The test calls
  \<^verbatim>\<open>Remove\<close> and \<^verbatim>\<open>Difference\<close> the methods that \<^verbatim>\<open>set.go\<close> declares as
  \<^verbatim>\<open>Delete\<close> and \<^verbatim>\<open>Diff\<close>.)
\<close>

definition TestStuff :: "(bool \<times> nat \<times> bool \<times> bool \<times> bool) option" where
  "TestStuff = do {
     (s, w) \<leftarrow> Some (New \<lparr>heap = [], events = []\<rparr>);
     w \<leftarrow> mutate s [Insert (Key ''zurich''), Insert (Key ''sofia''), Insert (Key ''dresden''), Insert (Key ''turin''),
                     Insert (Key ''lyon''), Insert (Key ''london'')] w;
     (t, w) \<leftarrow> Some (New w);
     w \<leftarrow> mutate t [Insert (Key ''york''), Insert (Key ''zurich''), Insert (Key ''turin''), Insert (Key ''london'')] w;
     (u, w) \<leftarrow> Some (New w);
     w \<leftarrow> mutate u [Insert (Key ''bern''), Insert (Key ''london'')] w;
     (i, w) \<leftarrow> Intersection [s, t, u] w;
     (has_london, w) \<leftarrow> Has i (Key ''london'') w;
     (n, w) \<leftarrow> Len i w;
     (logged1, w) \<leftarrow> Union_Set [s, t, u] w;
     (logged2, w) \<leftarrow> Intersection [s, t] w;
     (logged3, w) \<leftarrow> Diff s t w;
     (c, w) \<leftarrow> Copy s w;
     (eq_copy, w) \<leftarrow> Equal s c w;
     (eq_i, w) \<leftarrow> Equal s i w;
     (ct, w) \<leftarrow> Copy t w;
     w \<leftarrow> Delete ct (Key ''york'') w;
     (sub, w) \<leftarrow> Subset ct s w;
     Some (has_london, n, eq_copy, eq_i, sub) }"

section \<open>Auxiliary notions of the proofs\<close>

text \<open>
  The heap after one more read lock on \<open>a\<close>, after one fewer, and after the map of
  \<open>a\<close> has been replaced; the number of entries of a map.
\<close>

definition bump :: "addr \<Rightarrow> 'a Set list \<Rightarrow> 'a Set list" where
  "bump a h = h[a := (h ! a)\<lparr>mu := (mu (h ! a))\<lparr>readers := Suc (readers (mu (h ! a)))\<rparr>\<rparr>]"

definition unbump :: "addr \<Rightarrow> 'a Set list \<Rightarrow> 'a Set list" where
  "unbump a h = h[a := (h ! a)\<lparr>mu := (mu (h ! a))\<lparr>readers := readers (mu (h ! a)) - 1\<rparr>\<rparr>]"

definition set_tbl :: "addr \<Rightarrow> 'a entry dlist \<Rightarrow> 'a Set list \<Rightarrow> 'a Set list" where
  "set_tbl a T h = h[a := (h ! a)\<lparr>m := T\<rparr>]"

definition tsize :: "'a world \<Rightarrow> addr \<Rightarrow> nat" where
  "tsize w a = length (list_of_dlist (m (heap w ! a)))"

text \<open>
  The keys of a map in the order of a \<^verbatim>\<open>range\<close>, the keys that a lookup finds, and
  the maps all of whose keys are equal to themselves.
\<close>

definition keys_of :: "'a entry dlist \<Rightarrow> 'a key list" where
  "keys_of T = map key_of (list_of_dlist T)"

definition members :: "'a entry dlist \<Rightarrow> 'a key set" where
  "members T = {e. map_index T e}"

definition proper :: "'a entry dlist \<Rightarrow> bool" where
  "proper T = (\<forall>e\<in>set (keys_of T). eq_key e e)"

section \<open>The primitives, the loops and the functions, characterised\<close>

text \<open>
  For heaps in which the pointers involved can be dereferenced and no write lock is held,
  each function returns, and what it returns and the world it leaves are given in closed
  form.
\<close>

subsection \<open>Updates of the heap\<close>

lemma length_bump [simp]: "length (bump a h) = length h"
  by (simp add: bump_def)

lemma length_unbump [simp]: "length (unbump a h) = length h"
  by (simp add: unbump_def)

lemma length_set_tbl [simp]: "length (set_tbl a T h) = length h"
  by (simp add: set_tbl_def)

lemma m_bump [simp]: "m (bump a h ! b) = m (h ! b)"
  by (cases "a < length h") (simp_all add: bump_def nth_list_update list_update_beyond)

lemma m_unbump [simp]: "m (unbump a h ! b) = m (h ! b)"
  by (cases "a < length h") (simp_all add: unbump_def nth_list_update list_update_beyond)

lemma mu_set_tbl [simp]: "mu (set_tbl a T h ! b) = mu (h ! b)"
  by (cases "a < length h") (simp_all add: set_tbl_def nth_list_update list_update_beyond)

lemma m_set_tbl: "m (set_tbl a T h ! b) = (if b = a \<and> a < length h then T else m (h ! b))"
  by (cases "a < length h") (simp_all add: set_tbl_def nth_list_update list_update_beyond)

lemma writer_bump [simp]: "writer (mu (bump a h ! b)) = writer (mu (h ! b))"
  by (cases "a < length h") (simp_all add: bump_def nth_list_update list_update_beyond)

lemma writer_unbump [simp]: "writer (mu (unbump a h ! b)) = writer (mu (h ! b))"
  by (cases "a < length h") (simp_all add: unbump_def nth_list_update list_update_beyond)

lemma readers_bump: "readers (mu (bump a h ! b)) = (if b = a \<and> a < length h then Suc (readers (mu (h ! b))) else readers (mu (h ! b)))"
  by (cases "a < length h") (simp_all add: bump_def nth_list_update list_update_beyond)

lemma Set_upd_swap: "x\<lparr>mu := a, m := T\<rparr> = x\<lparr>m := T, mu := a\<rparr>"
  by (cases x) simp

lemma unbump_bump [simp]: "unbump a (bump a h) = h"
  by (cases "a < length h") (simp_all add: bump_def unbump_def list_update_beyond)

lemma bump_set_tbl [simp]: "bump a (set_tbl i T h) = set_tbl i T (bump a h)"
  by (cases "a < length h"; cases "i < length h"; cases "i = a") (simp_all add: bump_def set_tbl_def list_update_swap list_update_beyond Set_upd_swap)

lemma unbump_set_tbl [simp]: "unbump a (set_tbl i T h) = set_tbl i T (unbump a h)"
  by (cases "a < length h"; cases "i < length h"; cases "i = a") (simp_all add: unbump_def set_tbl_def list_update_swap list_update_beyond Set_upd_swap)

lemma set_tbl_set_tbl [simp]: "set_tbl i T (set_tbl i T' h) = set_tbl i T h"
  by (cases "i < length h") (simp_all add: set_tbl_def list_update_beyond)

lemma set_tbl_same [simp]: "set_tbl i (m (h ! i)) h = h"
  by (simp add: set_tbl_def)

subsection \<open>Maps\<close>

lemma eq_key_refl_iff: "eq_key e e \<longleftrightarrow> (\<exists>x. e = Key x)"
  by (cases e) simp_all

lemma eq_key_NaN [simp]: "eq_key e (NaN x) = False"
  by (cases e) simp_all

lemma key_of_eq_Key [simp]: "key_of x = Key y \<longleftrightarrow> x = Entry y" "Key y = key_of x \<longleftrightarrow> x = Entry y"
  by (cases x; auto)+

lemma eq_key_key_of: "eq_key (key_of x) e \<longleftrightarrow> (\<exists>y. x = Entry y \<and> e = Key y)"
  by (cases x; cases e) auto

lemma members_iff: "e \<in> members T \<longleftrightarrow> (\<exists>y. e = Key y \<and> Entry y \<in> set (list_of_dlist T))"
  by (auto simp: members_def map_index_def list_ex_iff eq_key_key_of)

lemma map_index_members: "map_index T e \<longleftrightarrow> e \<in> members T"
  by (simp add: members_def)

lemma members_refl: "e \<in> members T \<Longrightarrow> eq_key e e"
  by (auto simp: members_iff)

lemma members_keys: "members T = {e \<in> set (keys_of T). eq_key e e}"
  by (auto simp: members_iff keys_of_def eq_key_refl_iff image_iff)

lemma members_empty [simp]: "members Dlist.empty = {}"
  by (auto simp: members_iff)

lemma keys_of_empty [simp]: "keys_of Dlist.empty = []"
  by (simp add: keys_of_def)

lemma length_keys_of [simp]: "length (keys_of T) = length (list_of_dlist T)"
  by (simp add: keys_of_def)

lemma serial_le_fold:
  "n \<le> fold (\<lambda>x n. max (serial x) n) xs n \<and> (\<forall>x\<in>set xs. serial x \<le> fold (\<lambda>x n. max (serial x) n) xs n)"
proof (induction xs arbitrary: n)
  case Nil
  then show ?case by simp
next
  case (Cons y ys)
  from Cons.IH [of "max (serial y) n"] show ?case by auto
qed

lemma unused_fresh: "Stray (unused T) x \<notin> set (list_of_dlist T)"
proof
  assume "Stray (unused T) x \<in> set (list_of_dlist T)"
  with serial_le_fold [of 0 "list_of_dlist T"] have "serial (Stray (unused T) x) \<le> unused T"
    unfolding unused_def by blast
  then show False by simp
qed

lemma members_assign: "members (map_assign e T) = (if eq_key e e then insert e (members T) else members T)"
  by (cases e) (auto simp: map_assign_def map_index_members members_iff)


lemma keys_assign:
  "set (keys_of (map_assign e T)) = insert e (set (keys_of T)) \<or> (e \<in> members T \<and> map_assign e T = T)"
  by (cases e) (auto simp: map_assign_def map_index_members keys_of_def)

lemma length_assign:
  "length (list_of_dlist (map_assign e T)) = (if e \<in> members T then length (list_of_dlist T) else Suc (length (list_of_dlist T)))"
  by (cases e) (auto simp: map_assign_def map_index_members members_iff unused_fresh)

lemma length_assign_NaN: "length (list_of_dlist (map_assign (NaN x) T)) = Suc (length (list_of_dlist T))"
  by (simp add: length_assign members_iff)

lemma delete_NaN [simp]: "map_delete (NaN x) T = T"
  by (simp add: map_delete_def dlist_eq_iff)

lemma proper_assign: "proper T \<Longrightarrow> eq_key e e \<Longrightarrow> proper (map_assign e T)"
  using keys_assign [of e T] by (auto simp: proper_def)

lemma proper_empty [simp]: "proper Dlist.empty"
  by (simp add: proper_def)

lemma members_fold_assign:
  "members (fold map_assign ks T) = members T \<union> {e \<in> set ks. eq_key e e}"
  by (induction ks arbitrary: T) (auto simp: members_assign)

lemma members_fold_keys:
  "members (fold map_assign (keys_of S) T) = members T \<union> members S"
  unfolding members_fold_assign by (auto simp: members_keys)

lemma proper_fold_assign:
  "proper T \<Longrightarrow> \<forall>e\<in>set ks. eq_key e e \<Longrightarrow> proper (fold map_assign ks T)"
  by (induction ks arbitrary: T) (simp_all add: proper_assign)

lemma proper_members: "proper T \<Longrightarrow> set (keys_of T) = members T"
  by (auto simp: members_keys proper_def)

lemma distinct_keys_of: "proper T \<Longrightarrow> distinct (keys_of T)"
proof -
  assume p: "proper T"
  have "inj_on key_of (set (list_of_dlist T))"
  proof (rule inj_onI)
    fix x y assume x: "x \<in> set (list_of_dlist T)" and y: "y \<in> set (list_of_dlist T)"
      and k: "key_of x = key_of y"
    from p x have "eq_key (key_of x) (key_of x)" by (simp add: proper_def keys_of_def)
    with k show "x = y" by (cases x; cases y) auto
  qed
  then show ?thesis by (simp add: keys_of_def distinct_map)
qed

lemma card_members_le: "card (members T) \<le> length (list_of_dlist T)"
proof -
  have "members T \<subseteq> set (keys_of T)" by (auto simp: members_keys)
  then have "card (members T) \<le> card (set (keys_of T))" by (intro card_mono) simp_all
  also have "\<dots> \<le> length (keys_of T)" by (rule card_length)
  finally show ?thesis by simp
qed

lemma proper_iff_card: "proper T \<longleftrightarrow> card (members T) = length (list_of_dlist T)"
proof
  assume p: "proper T"
  from distinct_keys_of [OF p] have "card (set (keys_of T)) = length (keys_of T)" by (rule distinct_card)
  with proper_members [OF p] show "card (members T) = length (list_of_dlist T)" by simp
next
  assume c: "card (members T) = length (list_of_dlist T)"
  have sub: "members T \<subseteq> set (keys_of T)" by (auto simp: members_keys)
  have "card (set (keys_of T)) \<le> length (keys_of T)" by (rule card_length)
  with c have "card (set (keys_of T)) \<le> card (members T)" by simp
  with sub have "members T = set (keys_of T)" by (intro card_seteq) simp_all
  then show "proper T" by (auto simp: proper_def dest: members_refl)
qed

text \<open>The test of \<^verbatim>\<open>Equal\<close>, read on the keys that lookups find.\<close>

lemma equal_test:
  "(length (list_of_dlist S) = length (list_of_dlist T) \<and> set (keys_of S) \<subseteq> members T)
     \<longleftrightarrow> proper S \<and> proper T \<and> members S = members T"
proof
  assume a: "length (list_of_dlist S) = length (list_of_dlist T) \<and> set (keys_of S) \<subseteq> members T"
  then have pS: "proper S" by (auto simp: proper_def dest: members_refl)
  then have S: "set (keys_of S) = members S" and cS: "card (members S) = length (list_of_dlist S)"
    by (simp_all add: proper_members proper_iff_card [symmetric])
  have fin: "finite (members T)"
    by (rule finite_subset [of _ "set (keys_of T)"]) (auto simp: members_keys)
  from a S have sub: "members S \<subseteq> members T" by simp
  then have "card (members S) \<le> card (members T)" using fin by (rule card_mono [rotated])
  with cS a card_members_le [of T] have cT: "card (members T) = length (list_of_dlist T)" by simp
  then have pT: "proper T" by (simp add: proper_iff_card)
  from cS cT a have "card (members T) \<le> card (members S)" by linarith
  with sub fin have "members S = members T" by (intro card_seteq) simp_all
  with pS pT show "proper S \<and> proper T \<and> members S = members T" by simp
next
  assume a: "proper S \<and> proper T \<and> members S = members T"
  then have pS: "proper S" and pT: "proper T" and m: "members S = members T" by simp_all
  from pS have cS: "card (members S) = length (list_of_dlist S)" by (rule proper_iff_card [THEN iffD1])
  from pT have cT: "card (members T) = length (list_of_dlist T)" by (rule proper_iff_card [THEN iffD1])
  have "length (list_of_dlist S) = card (members S)" using cS by (rule sym)
  also have "\<dots> = card (members T)" by (simp only: m)
  also have "\<dots> = length (list_of_dlist T)" by (rule cT)
  finally have "length (list_of_dlist S) = length (list_of_dlist T)" .
  moreover have "set (keys_of S) \<subseteq> members T" using pS m by (simp add: proper_members)
  ultimately show "length (list_of_dlist S) = length (list_of_dlist T) \<and> set (keys_of S) \<subseteq> members T"
    by simp
qed

subsection \<open>What the primitives and the point operations return\<close>

lemma readable_Ptr:
  "readable (Ptr a) w \<longleftrightarrow> a < length (heap w) \<and> \<not> writer (mu (heap w ! a))"
  by (simp add: readable_def)

lemma unlocked_Ptr:
  "unlocked (Ptr a) w \<longleftrightarrow>
     a < length (heap w) \<and> mu (heap w ! a) = \<lparr>readers = 0, writer = False\<rparr>"
  by (simp add: unlocked_def)

lemma readableE:
  assumes "readable p w"
  obtains a where "p = Ptr a" and "a < length (heap w)" and "readable (Ptr a) w"
  using assms by (cases p) (simp_all add: readable_def split: if_splits)

lemma unlockedE:
  assumes "unlocked p w"
  obtains a where "p = Ptr a" and "a < length (heap w)" and "unlocked (Ptr a) w"
  using assms by (cases p) (simp_all add: unlocked_def split: if_splits)

lemma readable_all:
  assumes "\<forall>p\<in>set ps. readable p w"
  shows "\<exists>as. ps = map Ptr as \<and> (\<forall>a\<in>set as. readable (Ptr a) w)"
  using assms
proof (induction ps)
  case Nil
  then show ?case by simp
next
  case (Cons p ps)
  then obtain as where as: "ps = map Ptr as" "\<forall>a\<in>set as. readable (Ptr a) w" by auto
  from Cons.prems have "readable p w" by simp
  then obtain a where "p = Ptr a" "readable (Ptr a) w" by (rule readableE)
  with as show ?case by (intro exI [of _ "a # as"]) simp
qed

lemma RLock_eq:
  "readable (Ptr a) w \<Longrightarrow> RLock (Ptr a) w = Some (w\<lparr>heap := bump a (heap w), events := events w @ [RLocked (Ptr a)]\<rparr>)"
  by (simp add: RLock_def readable_Ptr mu_RLock_def emit_def bump_def)

lemma RUnlock_eq:
  "a < length (heap w) \<Longrightarrow> readers (mu (heap w ! a)) \<noteq> 0 \<Longrightarrow>
   RUnlock (Ptr a) w = Some (w\<lparr>heap := unbump a (heap w), events := events w @ [RUnlocked (Ptr a)]\<rparr>)"
  by (simp add: RUnlock_def mu_RUnlock_def emit_def unbump_def)

lemma lookup_eq:
  "a < length (heap w) \<Longrightarrow>
   lookup (Ptr a) e w = Some (e \<in> members (m (heap w ! a)), w\<lparr>events := events w @ [Probed (Ptr a) e]\<rparr>)"
  by (simp add: lookup_def emit_def map_index_members)

lemma store_eq:
  "a < length (heap w) \<Longrightarrow>
   store (Ptr a) e w = Some (w\<lparr>heap := set_tbl a (map_assign e (m (heap w ! a))) (heap w)\<rparr>)"
  by (simp add: store_def set_tbl_def)

lemma erase_eq:
  "a < length (heap w) \<Longrightarrow>
   erase (Ptr a) e w = Some (w\<lparr>heap := set_tbl a (map_delete e (m (heap w ! a))) (heap w)\<rparr>)"
  by (simp add: erase_def set_tbl_def)

lemma len_eq: "a < length (heap w) \<Longrightarrow> len (Ptr a) w = Some (length (list_of_dlist (m (heap w ! a))))"
  by (simp add: len_def Dlist.length_def)

lemma keys_eq: "a < length (heap w) \<Longrightarrow> keys (Ptr a) w = Some (keys_of (m (heap w ! a)))"
  by (simp add: keys_def keys_of_def)

lemma Has_eq:
  "readable (Ptr s) w \<Longrightarrow>
   Has (Ptr s) e w = Some (e \<in> members (m (heap w ! s)),
                     w\<lparr>events := events w @ [RLocked (Ptr s), Probed (Ptr s) e, RUnlocked (Ptr s)]\<rparr>)"
  by (simp add: Has_def RLock_eq lookup_eq RUnlock_eq readers_bump readable_Ptr)

lemma Len_eq:
  "readable (Ptr s) w \<Longrightarrow>
   Len (Ptr s) w = Some (length (list_of_dlist (m (heap w ! s))),
                     w\<lparr>events := events w @ [RLocked (Ptr s), RUnlocked (Ptr s)]\<rparr>)"
  by (simp add: Len_def RLock_eq len_eq RUnlock_eq readers_bump readable_Ptr)

lemma Set_mu_same: "mu x = a \<Longrightarrow> x\<lparr>m := T, mu := a\<rparr> = x\<lparr>m := T\<rparr>"
  by (cases x) simp

lemma Put_eq:
  "unlocked (Ptr s) w \<Longrightarrow>
   Put (Ptr s) e w = Some (w\<lparr>heap := set_tbl s (map_assign e (m (heap w ! s))) (heap w),
                       events := events w @ [Locked (Ptr s), Unlocked (Ptr s)]\<rparr>)"
  by (simp add: Put_def Lock_def Unlock_def store_def mu_Lock_def mu_Unlock_def
      unlocked_Ptr emit_def set_tbl_def Set_mu_same)

lemma Delete_eq:
  "unlocked (Ptr s) w \<Longrightarrow>
   Delete (Ptr s) e w = Some (w\<lparr>heap := set_tbl s (map_delete e (m (heap w ! s))) (heap w),
                       events := events w @ [Locked (Ptr s), Unlocked (Ptr s)]\<rparr>)"
  by (simp add: Delete_def Lock_def Unlock_def erase_def mu_Lock_def mu_Unlock_def
      unlocked_Ptr emit_def set_tbl_def Set_mu_same)

subsection \<open>Appending to the heap\<close>

lemma set_tbl_append [simp]: "set_tbl (length h) T (h @ [x]) = h @ [x\<lparr>m := T\<rparr>]"
  by (simp add: set_tbl_def)

lemma set_tbl_append_less [simp]: "a < length h \<Longrightarrow> set_tbl a T (h @ [x]) = set_tbl a T h @ [x]"
  by (simp add: set_tbl_def list_update_append nth_append)

subsection \<open>Range and Copy\<close>

lemma Range_loop_store:
  "u < length (heap w) \<Longrightarrow>
   Range_loop (\<lambda>e v. do { v1 \<leftarrow> store (Ptr u) e v; Some (True, v1) }) ks w =
     Some (w\<lparr>heap := set_tbl u (fold map_assign ks (m (heap w ! u))) (heap w)\<rparr>)"
proof (induction ks arbitrary: w)
  case Nil
  then show ?case by simp
next
  case (Cons e es)
  let ?w1 = "w\<lparr>heap := set_tbl u (map_assign e (m (heap w ! u))) (heap w)\<rparr>"
  have "u < length (heap ?w1)" using Cons.prems by simp
  from Cons.IH [OF this] Cons.prems show ?case
    by (simp add: store_eq m_set_tbl)
qed

lemma Range_Set_store:
  assumes "readable (Ptr s) w" and "u < length (heap w)"
  shows "Range_Set (Ptr s) (\<lambda>e v. do { v1 \<leftarrow> store (Ptr u) e v; Some (True, v1) }) w =
     Some (w\<lparr>heap := set_tbl u (fold map_assign (keys_of (m (heap w ! s))) (m (heap w ! u))) (heap w),
             events := events w @ [RLocked (Ptr s), RUnlocked (Ptr s)]\<rparr>)"
  using assms
  by (simp add: Range_Set_def RLock_eq keys_eq Range_loop_store RUnlock_eq readers_bump readable_Ptr)

lemma readable_append [simp]:
  "a < length (heap w) \<Longrightarrow> readable (Ptr a) (w\<lparr>heap := heap w @ xs\<rparr>) = readable (Ptr a) w"
  by (simp add: readable_Ptr nth_append)

lemma Copy_eq:
  assumes "readable (Ptr s) w"
  shows "Copy (Ptr s) w = Some (Ptr (length (heap w)),
     w\<lparr>heap := heap w @ [\<lparr>m = fold map_assign (keys_of (m (heap w ! s))) Dlist.empty,
                            mu = \<lparr>readers = 0, writer = False\<rparr>\<rparr>],
       events := events w @ [RLocked (Ptr s), RUnlocked (Ptr s)]\<rparr>)"
proof -
  have s: "s < length (heap w)" using assms by (simp add: readable_Ptr)
  let ?w0 = "w\<lparr>heap := heap w @ [\<lparr>m = Dlist.empty, mu = \<lparr>readers = 0, writer = False\<rparr>\<rparr>]\<rparr>"
  have r: "readable (Ptr s) ?w0" using assms s by simp
  have u: "length (heap w) < length (heap ?w0)" by simp
  show ?thesis
    using Range_Set_store [OF r u] s
    by (simp add: Copy_def New_def nth_append)
qed

subsection \<open>Subset and Equal\<close>

lemma all_in_loop_eq:
  assumes "t < length (heap w)"
  shows "\<exists>evs. all_in_loop (Ptr t) ks w =
           Some (set ks \<subseteq> members (m (heap w ! t)), w\<lparr>events := events w @ evs\<rparr>)
         \<and> set evs \<subseteq> Probed (Ptr t) ` set ks"
  using assms
proof (induction ks arbitrary: w)
  case Nil
  then show ?case by simp
next
  case (Cons e es)
  let ?w1 = "w\<lparr>events := events w @ [Probed (Ptr t) e]\<rparr>"
  have "t < length (heap ?w1)" using Cons.prems by simp
  from Cons.IH [OF this] obtain evs where
    loop: "all_in_loop (Ptr t) es ?w1 =
        Some (set es \<subseteq> members (m (heap w ! t)), ?w1\<lparr>events := events ?w1 @ evs\<rparr>)"
    and evs: "set evs \<subseteq> Probed (Ptr t) ` set es"
    by auto
  show ?case
  proof (cases "e \<in> members (m (heap w ! t))")
    case True
    with loop evs Cons.prems show ?thesis
      by (intro exI [of _ "Probed (Ptr t) e # evs"]) (auto simp: lookup_eq)
  next
    case False
    with Cons.prems show ?thesis
      by (intro exI [of _ "[Probed (Ptr t) e]"]) (auto simp: lookup_eq)
  qed
qed

lemma readable_bump [simp]:
  "readable (Ptr a) (w\<lparr>heap := bump b (heap w), events := evs\<rparr>) = readable (Ptr a) w"
  by (simp add: readable_Ptr)

lemma Subset_eq:
  assumes "readable (Ptr s) w" and "readable (Ptr t) w"
  shows "\<exists>evs. Subset (Ptr s) (Ptr t) w =
           Some (set (keys_of (m (heap w ! s))) \<subseteq> members (m (heap w ! t)),
                 w\<lparr>events := events w @ [RLocked (Ptr s), RLocked (Ptr t)] @ evs @ [RUnlocked (Ptr t), RUnlocked (Ptr s)]\<rparr>)
         \<and> set evs \<subseteq> Probed (Ptr t) ` set (keys_of (m (heap w ! s)))"
proof -
  have s: "s < length (heap w)" and t: "t < length (heap w)"
    using assms by (simp_all add: readable_Ptr)
  let ?w2 = "w\<lparr>heap := bump t (bump s (heap w)), events := events w @ [RLocked (Ptr s), RLocked (Ptr t)]\<rparr>"
  have l1: "RLock (Ptr s) w = Some (w\<lparr>heap := bump s (heap w), events := events w @ [RLocked (Ptr s)]\<rparr>)"
    using assms by (simp add: RLock_eq)
  have l2: "RLock (Ptr t) (w\<lparr>heap := bump s (heap w), events := events w @ [RLocked (Ptr s)]\<rparr>) = Some ?w2"
    using assms by (simp add: RLock_eq)
  have "t < length (heap ?w2)" using t by simp
  from all_in_loop_eq [OF this, of "keys_of (m (heap w ! s))"] obtain evs where
    loop: "all_in_loop (Ptr t) (keys_of (m (heap w ! s))) ?w2 =
        Some (set (keys_of (m (heap w ! s))) \<subseteq> members (m (heap w ! t)),
              ?w2\<lparr>events := events ?w2 @ evs\<rparr>)"
    and evs: "set evs \<subseteq> Probed (Ptr t) ` set (keys_of (m (heap w ! s)))"
    by auto
  have "Subset (Ptr s) (Ptr t) w =
           Some (set (keys_of (m (heap w ! s))) \<subseteq> members (m (heap w ! t)),
                 w\<lparr>events := events w @ [RLocked (Ptr s), RLocked (Ptr t)] @ evs @ [RUnlocked (Ptr t), RUnlocked (Ptr s)]\<rparr>)"
    using s t loop
    by (simp add: Subset_def l1 l2 keys_eq RUnlock_eq readers_bump)
  with evs show ?thesis by blast
qed

lemma Equal_eq:
  assumes "readable (Ptr s) w" and "readable (Ptr t) w"
  shows "\<exists>evs. Equal (Ptr s) (Ptr t) w =
           Some (length (list_of_dlist (m (heap w ! s))) = length (list_of_dlist (m (heap w ! t)))
                 \<and> set (keys_of (m (heap w ! s))) \<subseteq> members (m (heap w ! t)),
                 w\<lparr>events := events w @ [RLocked (Ptr s), RLocked (Ptr t)] @ evs @ [RUnlocked (Ptr t), RUnlocked (Ptr s)]\<rparr>)
         \<and> set evs \<subseteq> Probed (Ptr t) ` set (keys_of (m (heap w ! s)))
         \<and> (length (list_of_dlist (m (heap w ! s))) \<noteq> length (list_of_dlist (m (heap w ! t)))
              \<longrightarrow> evs = [])"
proof -
  have s: "s < length (heap w)" and t: "t < length (heap w)"
    using assms by (simp_all add: readable_Ptr)
  let ?w2 = "w\<lparr>heap := bump t (bump s (heap w)), events := events w @ [RLocked (Ptr s), RLocked (Ptr t)]\<rparr>"
  have l1: "RLock (Ptr s) w = Some (w\<lparr>heap := bump s (heap w), events := events w @ [RLocked (Ptr s)]\<rparr>)"
    using assms by (simp add: RLock_eq)
  have l2: "RLock (Ptr t) (w\<lparr>heap := bump s (heap w), events := events w @ [RLocked (Ptr s)]\<rparr>) = Some ?w2"
    using assms by (simp add: RLock_eq)
  show ?thesis
  proof (cases "length (list_of_dlist (m (heap w ! s))) = length (list_of_dlist (m (heap w ! t)))")
    case True
    have "t < length (heap ?w2)" using t by simp
    from all_in_loop_eq [OF this, of "keys_of (m (heap w ! s))"] obtain evs where
      loop: "all_in_loop (Ptr t) (keys_of (m (heap w ! s))) ?w2 =
          Some (set (keys_of (m (heap w ! s))) \<subseteq> members (m (heap w ! t)),
                ?w2\<lparr>events := events ?w2 @ evs\<rparr>)"
      and evs: "set evs \<subseteq> Probed (Ptr t) ` set (keys_of (m (heap w ! s)))"
      by auto
    have "Equal (Ptr s) (Ptr t) w =
           Some (length (list_of_dlist (m (heap w ! s))) = length (list_of_dlist (m (heap w ! t)))
                 \<and> set (keys_of (m (heap w ! s))) \<subseteq> members (m (heap w ! t)),
                 w\<lparr>events := events w @ [RLocked (Ptr s), RLocked (Ptr t)] @ evs @ [RUnlocked (Ptr t), RUnlocked (Ptr s)]\<rparr>)"
      using s t loop True
      by (simp add: Equal_def l1 l2 len_eq keys_eq RUnlock_eq readers_bump)
    with evs True show ?thesis by blast
  next
    case False
    have "Equal (Ptr s) (Ptr t) w =
           Some (False,
                 w\<lparr>events := events w @ [RLocked (Ptr s), RLocked (Ptr t)] @ [] @ [RUnlocked (Ptr t), RUnlocked (Ptr s)]\<rparr>)"
      using s t False
      by (simp add: Equal_def l1 l2 len_eq RUnlock_eq readers_bump)
    with False show ?thesis by (intro exI [of _ "[]"]) simp
  qed
qed

subsection \<open>Intersection\<close>

lemma length_fold_bump [simp]: "length (fold bump ss h) = length h"
  by (induction ss arbitrary: h) simp_all

lemma m_fold_bump [simp]: "m (fold bump ss h ! b) = m (h ! b)"
  by (induction ss arbitrary: h) simp_all

lemma writer_fold_bump [simp]: "writer (mu (fold bump ss h ! b)) = writer (mu (h ! b))"
  by (induction ss arbitrary: h) simp_all

lemma set_tbl_fold_bump: "set_tbl i T (fold bump ss h) = fold bump ss (set_tbl i T h)"
  by (induction ss arbitrary: h) simp_all

lemma world_upd_swap [simp]:
  "w\<lparr>events := evs, heap := H\<rparr> = w\<lparr>heap := H, events := evs\<rparr>"
  by (cases w) simp

lemma probe_all_eq:
  assumes "\<forall>a\<in>set ss. a < length (heap w)"
  shows "\<exists>evs. probe_all e (map Ptr ss) w =
           Some (\<forall>a\<in>set ss. e \<in> members (m (heap w ! a)), w\<lparr>events := events w @ evs\<rparr>)
         \<and> set evs \<subseteq> (\<lambda>a. Probed (Ptr a) e) ` set ss"
  using assms
proof (induction ss arbitrary: w)
  case Nil
  then show ?case by simp
next
  case (Cons s ss)
  let ?w1 = "w\<lparr>events := events w @ [Probed (Ptr s) e]\<rparr>"
  have "\<forall>a\<in>set ss. a < length (heap ?w1)" using Cons.prems by simp
  from Cons.IH [OF this] obtain evs where
    loop: "probe_all e (map Ptr ss) ?w1 =
        Some (\<forall>a\<in>set ss. e \<in> members (m (heap w ! a)), ?w1\<lparr>events := events ?w1 @ evs\<rparr>)"
    and evs: "set evs \<subseteq> (\<lambda>a. Probed (Ptr a) e) ` set ss"
    by auto
  show ?case
  proof (cases "e \<in> members (m (heap w ! s))")
    case True
    with loop evs Cons.prems show ?thesis
      by (intro exI [of _ "Probed (Ptr s) e # evs"]) (auto simp: lookup_eq)
  next
    case False
    with Cons.prems show ?thesis
      by (intro exI [of _ "[Probed (Ptr s) e]"]) (auto simp: lookup_eq)
  qed
qed

lemma next_loop_eq:
  assumes "i < length (heap w)" and "i \<notin> set sets" and "\<forall>a\<in>set sets. a < length (heap w)"
  shows "\<exists>T evs. next_loop (Ptr i) (map Ptr sets) ks w =
           Some (w\<lparr>heap := set_tbl i T (heap w), events := events w @ evs\<rparr>)
         \<and> members T = members (m (heap w ! i)) \<union>
             {e \<in> set ks. eq_key e e \<and> (\<forall>a\<in>set sets. e \<in> members (m (heap w ! a)))}
         \<and> (sets \<noteq> [] \<and> proper (m (heap w ! i)) \<longrightarrow> proper T)
         \<and> set evs \<subseteq> {Probed (Ptr a) e | a e. a \<in> set sets \<and> e \<in> set ks}"
  using assms
proof (induction ks arbitrary: w)
  case Nil
  then show ?case
    by (intro exI [of _ "m (heap w ! i)"] exI [of _ "[]"]) simp
next
  case (Cons e es)
  define inall where "inall \<longleftrightarrow> (\<forall>a\<in>set sets. e \<in> members (m (heap w ! a)))"
  from probe_all_eq [OF Cons.prems(3), of e] obtain evs1 where
    p: "probe_all e (map Ptr sets) w = Some (inall, w\<lparr>events := events w @ evs1\<rparr>)"
    and evs1: "set evs1 \<subseteq> (\<lambda>a. Probed (Ptr a) e) ` set sets"
    unfolding inall_def by auto
  define T1 where "T1 = (if inall then map_assign e (m (heap w ! i)) else m (heap w ! i))"
  let ?w2 = "w\<lparr>heap := set_tbl i T1 (heap w), events := events w @ evs1\<rparr>"
  have pre: "i < length (heap ?w2)" "\<forall>a\<in>set sets. a < length (heap ?w2)"
    using Cons.prems by simp_all
  from Cons.IH [OF pre(1) Cons.prems(2) pre(2)] obtain T evs where
    loop: "next_loop (Ptr i) (map Ptr sets) es ?w2 =
           Some (?w2\<lparr>heap := set_tbl i T (heap ?w2), events := events ?w2 @ evs\<rparr>)"
    and T: "members T = members (m (heap ?w2 ! i)) \<union>
             {e \<in> set es. eq_key e e \<and> (\<forall>a\<in>set sets. e \<in> members (m (heap ?w2 ! a)))}"
    and pT: "sets \<noteq> [] \<and> proper (m (heap ?w2 ! i)) \<longrightarrow> proper T"
    and evs: "set evs \<subseteq> {Probed (Ptr a) e | a e. a \<in> set sets \<and> e \<in> set es}"
    by blast
  have same: "\<And>a. a \<in> set sets \<Longrightarrow> m (heap ?w2 ! a) = m (heap w ! a)"
    using Cons.prems(2) by (auto simp: m_set_tbl)
  have mi: "m (heap ?w2 ! i) = T1" using Cons.prems(1) by (simp add: m_set_tbl)
  have step: "next_loop (Ptr i) (map Ptr sets) (e # es) w =
           Some (w\<lparr>heap := set_tbl i T (heap w), events := events w @ (evs1 @ evs)\<rparr>)"
  proof (cases inall)
    case True
    then have "T1 = map_assign e (m (heap w ! i))" unfolding T1_def by (rule if_P)
    with loop Cons.prems(1) True show ?thesis by (simp add: p store_eq)
  next
    case False
    then have "T1 = m (heap w ! i)" unfolding T1_def by (rule if_not_P)
    with loop Cons.prems(1) False show ?thesis by (simp add: p)
  qed
  have m1: "members T1 = members (m (heap w ! i)) \<union> {x. x = e \<and> eq_key e e \<and> inall}"
    by (auto simp: T1_def members_assign)
  have "members T = members (m (heap w ! i)) \<union>
             {x \<in> set (e # es). eq_key x x \<and> (\<forall>a\<in>set sets. x \<in> members (m (heap w ! a)))}"
    unfolding T mi m1 using same by (auto simp: inall_def)
  moreover have "sets \<noteq> [] \<and> proper (m (heap w ! i)) \<longrightarrow> proper T"
  proof
    assume a: "sets \<noteq> [] \<and> proper (m (heap w ! i))"
    have "proper T1"
    proof (cases inall)
      case True
      from a obtain s where "s \<in> set sets" by (cases sets) auto
      with True have "e \<in> members (m (heap w ! s))" by (simp add: inall_def)
      then have "eq_key e e" by (rule members_refl)
      with a True show ?thesis by (simp add: T1_def proper_assign)
    next
      case False
      with a show ?thesis by (simp add: T1_def)
    qed
    with pT [unfolded mi] a show "proper T" by simp
  qed
  moreover have "set (evs1 @ evs) \<subseteq> {Probed (Ptr a) x | a x. a \<in> set sets \<and> x \<in> set (e # es)}"
    using evs1 evs by auto
  ultimately show ?case using step by blast
qed

lemma smallest_loop_eq:
  assumes "\<forall>a\<in>set ss. readable (Ptr a) w" and "sm < length (heap w)"
  shows "\<exists>sm'. smallest_loop (Ptr sm) (map Ptr ss) w =
           Some (Ptr sm', w\<lparr>heap := fold bump ss (heap w), events := events w @ map (RLocked \<circ> Ptr) ss\<rparr>)
         \<and> sm' \<in> insert sm (set ss)
         \<and> (\<forall>a\<in>insert sm (set ss). tsize w sm' \<le> tsize w a)"
  using assms
proof (induction ss arbitrary: sm w)
  case Nil
  then show ?case by simp
next
  case (Cons s ss)
  let ?w1 = "w\<lparr>heap := bump s (heap w), events := events w @ [RLocked (Ptr s)]\<rparr>"
  let ?sm1 = "if tsize w s < tsize w sm then s else sm"
  have s: "readable (Ptr s) w" "s < length (heap w)" using Cons.prems by (simp_all add: readable_Ptr)
  have pre: "\<forall>a\<in>set ss. readable (Ptr a) ?w1" "?sm1 < length (heap ?w1)"
    using Cons.prems s by simp_all
  from Cons.IH [OF pre] obtain sm' where
    loop: "smallest_loop (Ptr ?sm1) (map Ptr ss) ?w1 =
           Some (Ptr sm', ?w1\<lparr>heap := fold bump ss (heap ?w1), events := events ?w1 @ map (RLocked \<circ> Ptr) ss\<rparr>)"
    and mem: "sm' \<in> insert ?sm1 (set ss)"
    and least: "\<forall>a\<in>insert ?sm1 (set ss). tsize ?w1 sm' \<le> tsize ?w1 a"
    by blast
  have sz: "\<And>a. tsize ?w1 a = tsize w a" by (simp add: tsize_def)
  have "smallest_loop (Ptr sm) (map Ptr (s # ss)) w =
           Some (Ptr sm', w\<lparr>heap := fold bump (s # ss) (heap w), events := events w @ map (RLocked \<circ> Ptr) (s # ss)\<rparr>)"
    using loop s Cons.prems(2) by (simp add: RLock_eq len_eq tsize_def if_distrib [of Ptr])
  moreover have "sm' \<in> insert sm (set (s # ss))" using mem by (auto split: if_splits)
  moreover have "\<forall>a\<in>insert sm (set (s # ss)). tsize w sm' \<le> tsize w a"
    using least unfolding sz by (auto split: if_splits)
  ultimately show ?case by blast
qed

lemma run_deferred_append:
  "run_deferred (xs @ ys) w = Option.bind (run_deferred xs w) (run_deferred ys)"
  by (induction xs arbitrary: w) (simp_all split: Option.bind_split)

lemma run_deferred_eq:
  assumes "\<forall>a\<in>set ss. a < length H"
  shows "run_deferred (map Ptr (rev ss)) (w\<lparr>heap := fold bump ss H, events := evs\<rparr>) =
           Some (w\<lparr>heap := H, events := evs @ map (RUnlocked \<circ> Ptr) (rev ss)\<rparr>)"
  using assms
proof (induction ss arbitrary: H evs)
  case Nil
  then show ?case by simp
next
  case (Cons s ss)
  have "\<forall>a\<in>set ss. a < length (bump s H)" using Cons.prems by simp
  from Cons.IH [OF this, of evs] Cons.prems show ?case
    by (simp add: run_deferred_append RUnlock_eq readers_bump)
qed

lemma Intersection_nil:
  "Intersection [] w = Some (Ptr (length (heap w)),
     w\<lparr>heap := heap w @ [\<lparr>m = Dlist.empty, mu = \<lparr>readers = 0, writer = False\<rparr>\<rparr>]\<rparr>)"
  by (simp add: Intersection_def New_def)

lemma Intersection_eq:
  assumes all: "\<forall>a\<in>set sets. readable (Ptr a) w" and ne: "sets \<noteq> []"
  shows "\<exists>T evs sm. Intersection (map Ptr sets) w = Some (Ptr (length (heap w)),
             w\<lparr>heap := heap w @ [\<lparr>m = T, mu = \<lparr>readers = 0, writer = False\<rparr>\<rparr>],
               events := events w @ map (RLocked \<circ> Ptr) sets @ evs @ map (RUnlocked \<circ> Ptr) (rev sets)\<rparr>)
         \<and> members T = (\<Inter>a\<in>set sets. members (m (heap w ! a))) \<and> proper T
         \<and> sm \<in> set sets \<and> (\<forall>a\<in>set sets. tsize w sm \<le> tsize w a)
         \<and> (\<exists>w1. smallest_loop (Ptr (hd sets)) (map Ptr sets) (snd (New w)) = Some (Ptr sm, w1))
         \<and> set evs \<subseteq> {Probed (Ptr a) e | a e. a \<in> set sets \<and> e \<in> set (keys_of (m (heap w ! sm)))}"
proof -
  define new :: "'a Set" where "new = \<lparr>m = Dlist.empty, mu = \<lparr>readers = 0, writer = False\<rparr>\<rparr>"
  define H0 where "H0 = heap w @ [new]"
  define i where "i = length (heap w)"
  let ?w0 = "w\<lparr>heap := H0\<rparr>"
  have valid: "\<And>a. a \<in> set sets \<Longrightarrow> a < length (heap w)"
    using all by (simp add: readable_Ptr)
  have old: "\<And>a. a \<in> set sets \<Longrightarrow> H0 ! a = heap w ! a"
    using valid by (simp add: H0_def nth_append)
  have new_w: "New w = (Ptr i, ?w0)" by (simp add: New_def i_def H0_def new_def)
  obtain s0 rest where sets: "sets = s0 # rest" using ne by (cases sets) auto
  have r0: "\<forall>a\<in>set sets. readable (Ptr a) ?w0"
  proof
    fix a assume a: "a \<in> set sets"
    from valid [OF a] have "a < length H0" by (simp add: H0_def)
    moreover from all a have "\<not> writer (mu (heap w ! a))" by (simp add: readable_Ptr)
    ultimately show "readable (Ptr a) ?w0" using old [OF a] by (simp add: readable_Ptr)
  qed
  have hd0: "hd sets < length (heap ?w0)" using valid [of s0] sets by (simp add: H0_def)
  from smallest_loop_eq [OF r0 hd0] obtain sm where
    sl: "smallest_loop (Ptr (hd sets)) (map Ptr sets) ?w0 =
           Some (Ptr sm, ?w0\<lparr>heap := fold bump sets (heap ?w0), events := events ?w0 @ map (RLocked \<circ> Ptr) sets\<rparr>)"
    and sm_in: "sm \<in> insert (hd sets) (set sets)"
    and sm_least: "\<forall>a\<in>insert (hd sets) (set sets). tsize ?w0 sm \<le> tsize ?w0 a"
    by blast
  have sm_mem: "sm \<in> set sets" using sm_in sets by auto
  have sz: "\<And>a. a \<in> set sets \<Longrightarrow> tsize ?w0 a = tsize w a"
    using old by (simp add: tsize_def)
  have least: "\<forall>a\<in>set sets. tsize w sm \<le> tsize w a"
    using sm_least sz sm_mem by auto
  let ?w1 = "w\<lparr>heap := fold bump sets H0, events := events w @ map (RLocked \<circ> Ptr) sets\<rparr>"
  have sl': "smallest_loop (Ptr (hd sets)) (map Ptr sets) ?w0 = Some (Ptr sm, ?w1)" using sl by simp
  have ks: "keys (Ptr sm) ?w1 = Some (keys_of (m (heap w ! sm)))"
    using valid [OF sm_mem] old [OF sm_mem] by (simp add: keys_eq H0_def)
  have i1: "i < length (heap ?w1)" by (simp add: i_def H0_def)
  have i2: "i \<notin> set sets" using valid by (auto simp: i_def)
  have v1: "\<forall>a\<in>set sets. a < length (heap ?w1)" using valid by (fastforce simp: H0_def)
  from next_loop_eq [OF i1 i2 v1, of "keys_of (m (heap w ! sm))"] obtain T evs where
    nl: "next_loop (Ptr i) (map Ptr sets) (keys_of (m (heap w ! sm))) ?w1 =
           Some (?w1\<lparr>heap := set_tbl i T (heap ?w1), events := events ?w1 @ evs\<rparr>)"
    and T: "members T = members (m (heap ?w1 ! i)) \<union>
             {e \<in> set (keys_of (m (heap w ! sm))).
                eq_key e e \<and> (\<forall>a\<in>set sets. e \<in> members (m (heap ?w1 ! a)))}"
    and pT: "sets \<noteq> [] \<and> proper (m (heap ?w1 ! i)) \<longrightarrow> proper T"
    and evs: "set evs \<subseteq> {Probed (Ptr a) e | a e. a \<in> set sets \<and> e \<in> set (keys_of (m (heap w ! sm)))}"
    by blast
  have empty_i: "m (heap ?w1 ! i) = Dlist.empty" by (simp add: H0_def i_def new_def)
  have same: "\<And>a. a \<in> set sets \<Longrightarrow> m (heap ?w1 ! a) = m (heap w ! a)"
    using old by simp
  have T': "members T = (\<Inter>a\<in>set sets. members (m (heap w ! a)))"
    using T same sm_mem unfolding empty_i by (auto simp: members_keys)
  have pT': "proper T" using pT ne unfolding empty_i by simp
  define H where "H = heap w @ [\<lparr>m = T, mu = \<lparr>readers = 0, writer = False\<rparr>\<rparr>]"
  have heap2: "set_tbl i T (fold bump sets H0) = fold bump sets H"
    by (simp add: set_tbl_fold_bump H0_def H_def i_def new_def)
  have vH: "\<forall>a\<in>set sets. a < length H" using valid by (fastforce simp: H_def)
  have nl': "next_loop (Ptr i) (map Ptr sets) (keys_of (m (heap w ! sm))) ?w1 =
           Some (w\<lparr>heap := fold bump sets H, events := events w @ map (RLocked \<circ> Ptr) sets @ evs\<rparr>)"
    using nl heap2 by simp
  have rd: "run_deferred (map Ptr (rev sets)) (w\<lparr>heap := fold bump sets H, events := events w @ map (RLocked \<circ> Ptr) sets @ evs\<rparr>)
      = Some (w\<lparr>heap := H, events := events w @ map (RLocked \<circ> Ptr) sets @ evs @ map (RUnlocked \<circ> Ptr) (rev sets)\<rparr>)"
    using run_deferred_eq [OF vH, where w = w and evs = "events w @ map (RLocked \<circ> Ptr) sets @ evs"] by simp
  have unf: "Intersection (map Ptr sets) w = do {
          (smallest, w1) \<leftarrow> smallest_loop (Ptr (hd sets)) (map Ptr sets) ?w0;
          ks \<leftarrow> keys smallest w1;
          w2 \<leftarrow> next_loop (Ptr i) (map Ptr sets) ks w1;
          w3 \<leftarrow> run_deferred (map Ptr (rev sets)) w2;
          Some (Ptr i, w3) }"
    using ne by (cases sets) (simp_all add: Intersection_def new_w rev_map)
  have "Intersection (map Ptr sets) w = Some (Ptr i,
             w\<lparr>heap := H, events := events w @ map (RLocked \<circ> Ptr) sets @ evs @ map (RUnlocked \<circ> Ptr) (rev sets)\<rparr>)"
    unfolding unf by (simp add: sl' ks nl' rd)
  moreover have "\<exists>w1. smallest_loop (Ptr (hd sets)) (map Ptr sets) (snd (New w)) = Some (Ptr sm, w1)"
    using sl' new_w by simp
  ultimately show ?thesis using T' pT' sm_mem least evs unfolding H_def i_def by blast
qed

subsection \<open>Union and Diff\<close>

lemma bump_append [simp]: "a < length h \<Longrightarrow> bump a (h @ xs) = bump a h @ xs"
  by (simp add: bump_def list_update_append nth_append)

lemma unbump_append [simp]: "a < length h \<Longrightarrow> unbump a (h @ xs) = unbump a h @ xs"
  by (simp add: unbump_def list_update_append nth_append)

lemma set_tbl_append_eq [simp]:
  "n = length h \<Longrightarrow> set_tbl n T (h @ [x]) = h @ [x\<lparr>m := T\<rparr>]"
  by (simp add: set_tbl_def)

lemma Union_loop_eq:
  assumes "u < length (heap w)" and "u \<notin> set sets" and "\<forall>a\<in>set sets. readable (Ptr a) w"
  shows "\<exists>T evs. Union_loop (Ptr u) (map Ptr sets) w =
           Some (w\<lparr>heap := set_tbl u T (heap w), events := events w @ evs\<rparr>)
         \<and> members T = members (m (heap w ! u)) \<union>
             (\<Union>a\<in>set sets. members (m (heap w ! a)))
         \<and> (sets = [] \<longrightarrow> T = m (heap w ! u))"
  using assms
proof (induction sets arbitrary: w)
  case Nil
  then show ?case
    by (intro exI [of _ "m (heap w ! u)"] exI [of _ "[]"]) simp
next
  case (Cons s ss)
  define T1 where "T1 = fold map_assign (keys_of (m (heap w ! s))) (m (heap w ! u))"
  let ?w1 = "w\<lparr>heap := set_tbl u T1 (heap w), events := events w @ [RLocked (Ptr s), RUnlocked (Ptr s)]\<rparr>"
  have s: "readable (Ptr s) w" and us: "u \<noteq> s" using Cons.prems by auto
  have r: "Range_Set (Ptr s) (\<lambda>e v. do { v1 \<leftarrow> store (Ptr u) e v; Some (True, v1) }) w = Some ?w1"
    using Range_Set_store [OF s Cons.prems(1)] by (simp add: T1_def)
  have pre: "u < length (heap ?w1)" "u \<notin> set ss" "\<forall>a\<in>set ss. readable (Ptr a) ?w1"
    using Cons.prems by (simp_all add: readable_Ptr)
  from Cons.IH [OF pre] obtain T evs where
    loop: "Union_loop (Ptr u) (map Ptr ss) ?w1 =
           Some (?w1\<lparr>heap := set_tbl u T (heap ?w1), events := events ?w1 @ evs\<rparr>)"
    and T: "members T = members (m (heap ?w1 ! u)) \<union>
             (\<Union>a\<in>set ss. members (m (heap ?w1 ! a)))"
    by blast
  have same: "\<And>a. a \<in> set ss \<Longrightarrow> m (heap ?w1 ! a) = m (heap w ! a)"
    using Cons.prems(2) by (auto simp: m_set_tbl)
  have "Union_loop (Ptr u) (map Ptr (s # ss)) w =
           Some (w\<lparr>heap := set_tbl u T (heap w), events := events w @ ([RLocked (Ptr s), RUnlocked (Ptr s)] @ evs)\<rparr>)"
    using loop by (simp add: r)
  moreover have "members T = members (m (heap w ! u)) \<union>
             (\<Union>a\<in>set (s # ss). members (m (heap w ! a)))"
    using T same Cons.prems(1) by (auto simp: m_set_tbl T1_def members_fold_keys)
  ultimately show ?case by blast
qed

lemma Union_Set_eq:
  assumes all: "\<forall>a\<in>set sets. readable (Ptr a) w"
  shows "\<exists>T evs. Union_Set (map Ptr sets) w = Some (Ptr (length (heap w)),
             w\<lparr>heap := heap w @ [\<lparr>m = T, mu = \<lparr>readers = 0, writer = False\<rparr>\<rparr>],
               events := events w @ evs\<rparr>)
         \<and> members T = (\<Union>a\<in>set sets. members (m (heap w ! a)))
         \<and> (sets = [] \<longrightarrow> T = Dlist.empty)"
proof -
  define new :: "'a Set" where "new = \<lparr>m = Dlist.empty, mu = \<lparr>readers = 0, writer = False\<rparr>\<rparr>"
  define u where "u = length (heap w)"
  let ?w0 = "w\<lparr>heap := heap w @ [new]\<rparr>"
  have valid: "\<And>a. a \<in> set sets \<Longrightarrow> a < length (heap w)"
    using all by (simp add: readable_Ptr)
  have new_w: "New w = (Ptr u, ?w0)" by (simp add: New_def u_def new_def)
  have r0: "\<forall>a\<in>set sets. readable (Ptr a) ?w0"
  proof
    fix a assume a: "a \<in> set sets"
    with all valid [OF a] show "readable (Ptr a) ?w0" by simp
  qed
  have u0: "u < length (heap ?w0)" by (simp add: u_def)
  have u1: "u \<notin> set sets" using valid by (auto simp: u_def)
  from Union_loop_eq [OF u0 u1 r0] obtain T evs where
    loop: "Union_loop (Ptr u) (map Ptr sets) ?w0 =
           Some (?w0\<lparr>heap := set_tbl u T (heap ?w0), events := events ?w0 @ evs\<rparr>)"
    and T: "members T = members (m (heap ?w0 ! u)) \<union>
             (\<Union>a\<in>set sets. members (m (heap ?w0 ! a)))"
    and T0: "sets = [] \<longrightarrow> T = m (heap ?w0 ! u)"
    by blast
  have same: "\<And>a. a \<in> set sets \<Longrightarrow> m (heap ?w0 ! a) = m (heap w ! a)"
    using valid by (simp add: nth_append)
  have "Union_Set (map Ptr sets) w = Some (Ptr u,
             w\<lparr>heap := heap w @ [\<lparr>m = T, mu = \<lparr>readers = 0, writer = False\<rparr>\<rparr>],
               events := events w @ evs\<rparr>)"
    using loop by (simp add: Union_Set_def new_w u_def new_def)
  moreover have "members T = (\<Union>a\<in>set sets. members (m (heap w ! a)))"
    using T same by (simp add: u_def new_def)
  moreover have "sets = [] \<longrightarrow> T = Dlist.empty"
    using T0 by (simp add: u_def new_def)
  ultimately show ?thesis unfolding u_def by blast
qed

lemma Diff_loop_eq:
  assumes "d < length (heap w)" and "t < length (heap w)" and "d \<noteq> t"
  shows "\<exists>T. Range_loop (\<lambda>e v. do {
             (ok, v1) \<leftarrow> lookup (Ptr t) e v;
             v2 \<leftarrow> (if \<not> ok then store (Ptr d) e v1 else Some v1);
             Some (True, v2) }) ks w =
           Some (w\<lparr>heap := set_tbl d T (heap w), events := events w @ map (Probed (Ptr t)) ks\<rparr>)
         \<and> members T = members (m (heap w ! d)) \<union>
             {e \<in> set ks. eq_key e e \<and> e \<notin> members (m (heap w ! t))}
         \<and> (proper (m (heap w ! d)) \<and> (\<forall>e\<in>set ks. eq_key e e) \<longrightarrow> proper T)"
  using assms
proof (induction ks arbitrary: w)
  case Nil
  then show ?case
    by (intro exI [of _ "m (heap w ! d)"]) simp
next
  case (Cons e es)
  define miss where "miss \<longleftrightarrow> e \<notin> members (m (heap w ! t))"
  define T1 where "T1 = (if miss then map_assign e (m (heap w ! d)) else m (heap w ! d))"
  let ?w2 = "w\<lparr>heap := set_tbl d T1 (heap w), events := events w @ [Probed (Ptr t) e]\<rparr>"
  have pre: "d < length (heap ?w2)" "t < length (heap ?w2)" using Cons.prems by simp_all
  from Cons.IH [OF pre Cons.prems(3)] obtain T where
    loop: "Range_loop (\<lambda>e v. do {
             (ok, v1) \<leftarrow> lookup (Ptr t) e v;
             v2 \<leftarrow> (if \<not> ok then store (Ptr d) e v1 else Some v1);
             Some (True, v2) }) es ?w2 =
           Some (?w2\<lparr>heap := set_tbl d T (heap ?w2), events := events ?w2 @ map (Probed (Ptr t)) es\<rparr>)"
    and T: "members T = members (m (heap ?w2 ! d)) \<union>
             {e \<in> set es. eq_key e e \<and> e \<notin> members (m (heap ?w2 ! t))}"
    and pT: "proper (m (heap ?w2 ! d)) \<and> (\<forall>e\<in>set es. eq_key e e) \<longrightarrow> proper T"
    by blast
  have lk: "lookup (Ptr t) e w = Some (\<not> miss, w\<lparr>events := events w @ [Probed (Ptr t) e]\<rparr>)"
    using Cons.prems(2) by (simp add: lookup_eq miss_def)
  have step: "Range_loop (\<lambda>e v. do {
             (ok, v1) \<leftarrow> lookup (Ptr t) e v;
             v2 \<leftarrow> (if \<not> ok then store (Ptr d) e v1 else Some v1);
             Some (True, v2) }) (e # es) w =
           Some (w\<lparr>heap := set_tbl d T (heap w), events := events w @ map (Probed (Ptr t)) (e # es)\<rparr>)"
  proof (cases miss)
    case True
    then have "T1 = map_assign e (m (heap w ! d))" unfolding T1_def by (rule if_P)
    with loop Cons.prems(1) True show ?thesis by (simp add: lk store_eq)
  next
    case False
    then have "T1 = m (heap w ! d)" unfolding T1_def by (rule if_not_P)
    with loop False show ?thesis by (simp add: lk)
  qed
  have "members T = members (m (heap w ! d)) \<union>
             {x \<in> set (e # es). eq_key x x \<and> x \<notin> members (m (heap w ! t))}"
    using T Cons.prems by (auto simp: m_set_tbl T1_def miss_def members_assign)
  moreover have "proper (m (heap w ! d)) \<and> (\<forall>x\<in>set (e # es). eq_key x x) \<longrightarrow> proper T"
    using pT Cons.prems by (auto simp: m_set_tbl T1_def proper_assign)
  ultimately show ?case using step by blast
qed

lemma Diff_eq:
  assumes "readable (Ptr s) w" and "readable (Ptr t) w"
  shows "\<exists>T. Diff (Ptr s) (Ptr t) w = Some (Ptr (length (heap w)),
             w\<lparr>heap := heap w @ [\<lparr>m = T, mu = \<lparr>readers = 0, writer = False\<rparr>\<rparr>],
               events := events w @ [RLocked (Ptr t), RLocked (Ptr s)] @
                  map (Probed (Ptr t)) (keys_of (m (heap w ! s))) @ [RUnlocked (Ptr s), RUnlocked (Ptr t)]\<rparr>)
         \<and> members T =
             members (m (heap w ! s)) - members (m (heap w ! t))
         \<and> (proper (m (heap w ! s)) \<longrightarrow> proper T)"
proof -
  define new :: "'a Set" where "new = \<lparr>m = Dlist.empty, mu = \<lparr>readers = 0, writer = False\<rparr>\<rparr>"
  define d where "d = length (heap w)"
  define ks where "ks = keys_of (m (heap w ! s))"
  have s: "s < length (heap w)" and t: "t < length (heap w)"
    using assms by (simp_all add: readable_Ptr)
  let ?w1 = "w\<lparr>heap := bump t (heap w), events := events w @ [RLocked (Ptr t)]\<rparr>"
  let ?w2 = "w\<lparr>heap := bump t (heap w) @ [new], events := events w @ [RLocked (Ptr t)]\<rparr>"
  let ?w3 = "w\<lparr>heap := bump s (bump t (heap w)) @ [new], events := events w @ [RLocked (Ptr t), RLocked (Ptr s)]\<rparr>"
  have l1: "RLock (Ptr t) w = Some ?w1" using assms by (simp add: RLock_eq)
  have n: "New ?w1 = (Ptr d, ?w2)" by (simp add: New_def d_def new_def)
  have "readable (Ptr s) ?w2" using assms s by (simp add: readable_Ptr nth_append)
  then have l2: "RLock (Ptr s) ?w2 = Some ?w3" using s by (simp add: RLock_eq)
  have k: "keys (Ptr s) ?w3 = Some ks" using s by (simp add: keys_eq nth_append ks_def)
  have pre: "d < length (heap ?w3)" "t < length (heap ?w3)" "d \<noteq> t"
    using t by (simp_all add: d_def)
  from Diff_loop_eq [OF pre, of ks] obtain T where
    loop: "Range_loop (\<lambda>e v. do {
             (ok, v1) \<leftarrow> lookup (Ptr t) e v;
             v2 \<leftarrow> (if \<not> ok then store (Ptr d) e v1 else Some v1);
             Some (True, v2) }) ks ?w3 =
           Some (?w3\<lparr>heap := set_tbl d T (heap ?w3), events := events ?w3 @ map (Probed (Ptr t)) ks\<rparr>)"
    and T: "members T = members (m (heap ?w3 ! d)) \<union>
             {e \<in> set ks. eq_key e e \<and> e \<notin> members (m (heap ?w3 ! t))}"
    and pT: "proper (m (heap ?w3 ! d)) \<and> (\<forall>e\<in>set ks. eq_key e e) \<longrightarrow> proper T"
    by blast
  let ?w4 = "w\<lparr>heap := bump s (bump t (heap w)) @ [new\<lparr>m := T\<rparr>],
               events := events w @ [RLocked (Ptr t), RLocked (Ptr s)] @ map (Probed (Ptr t)) ks\<rparr>"
  have loop': "Range_loop (\<lambda>e v. do {
             (ok, v1) \<leftarrow> lookup (Ptr t) e v;
             v2 \<leftarrow> (if \<not> ok then store (Ptr d) e v1 else Some v1);
             Some (True, v2) }) ks ?w3 = Some ?w4"
    using loop by (simp add: d_def)
  let ?w5 = "w\<lparr>heap := bump t (heap w) @ [new\<lparr>m := T\<rparr>],
               events := events w @ [RLocked (Ptr t), RLocked (Ptr s)] @ map (Probed (Ptr t)) ks @ [RUnlocked (Ptr s)]\<rparr>"
  have u1: "RUnlock (Ptr s) ?w4 = Some ?w5"
    using s t by (simp add: RUnlock_eq nth_append readers_bump)
  have rs: "Range_Set (Ptr s) (\<lambda>e v. do {
             (ok, v1) \<leftarrow> lookup (Ptr t) e v;
             v2 \<leftarrow> (if \<not> ok then store (Ptr d) e v1 else Some v1);
             Some (True, v2) }) ?w2 = Some ?w5"
    unfolding Range_Set_def using l2 k loop' u1 by simp
  let ?w6 = "w\<lparr>heap := heap w @ [new\<lparr>m := T\<rparr>],
               events := events w @ [RLocked (Ptr t), RLocked (Ptr s)] @ map (Probed (Ptr t)) ks @ [RUnlocked (Ptr s), RUnlocked (Ptr t)]\<rparr>"
  have u2: "RUnlock (Ptr t) ?w5 = Some ?w6"
    using s t by (simp add: RUnlock_eq nth_append readers_bump)
  have "Diff (Ptr s) (Ptr t) w = Some (Ptr d, ?w6)"
    unfolding Diff_def using l1 n rs u2 by simp
  moreover have "members T =
             members (m (heap w ! s)) - members (m (heap w ! t))"
    using T t by (auto simp: d_def nth_append new_def ks_def members_keys)
  moreover have "proper (m (heap w ! s)) \<longrightarrow> proper T"
    using pT by (simp add: d_def nth_append new_def ks_def proper_def)
  ultimately show ?thesis unfolding d_def ks_def new_def by auto
qed

subsection \<open>Observations\<close>

lemma returns_Some [simp]: "returns (Some (r, w)) b \<longleftrightarrow> r = b"
  by (simp add: returns_def)

lemma returns_Has: "readable (Ptr a) w \<Longrightarrow>
  returns (Has (Ptr a) e w) b \<longleftrightarrow> (b \<longleftrightarrow> e \<in> members (m (heap w ! a)))"
  by (auto simp: Has_eq)

lemma contains_eq: "readable (Ptr a) w \<Longrightarrow> contains w (Ptr a) e \<longleftrightarrow> e \<in> members (m (heap w ! a))"
  by (simp add: contains_def returns_Has)

lemma returns_Len: "readable (Ptr a) w \<Longrightarrow>
  returns (Len (Ptr a) w) n \<longleftrightarrow> n = length (list_of_dlist (m (heap w ! a)))"
  by (auto simp: Len_eq)

lemma unlocked_readable: "unlocked (Ptr a) w \<Longrightarrow> readable (Ptr a) w"
  by (simp add: unlocked_Ptr readable_Ptr)

lemma acquired_probes: "set evs \<subseteq> range (\<lambda>(a, e). Probed a e) \<Longrightarrow> acquired evs = [] \<and> released evs = []"
  by (induction evs) auto

lemma acquired_append [simp]: "acquired (xs @ ys) = acquired xs @ acquired ys"
  by (induction xs rule: acquired.induct) simp_all

lemma released_append [simp]: "released (xs @ ys) = released xs @ released ys"
  by (induction xs rule: released.induct) simp_all

lemma new_events_append [simp]: "new_events w (w\<lparr>events := events w @ evs\<rparr>) = evs"
  by (simp add: new_events_def)

lemma new_events_append2 [simp]: "new_events w (w\<lparr>heap := H, events := events w @ evs\<rparr>) = evs"
  by (simp add: new_events_def)

lemma returns_Subset:
  assumes "readable (Ptr a) v" and "readable (Ptr b) v"
  shows "returns (Subset (Ptr a) (Ptr b) v)
     (set (keys_of (m (heap v ! a))) \<subseteq> members (m (heap v ! b)))"
  using Subset_eq [OF assms] by auto

lemma unlocked_readable_ptr: "unlocked p w \<Longrightarrow> readable p w"
  by (cases "deref p w") (simp_all add: unlocked_def readable_def)

subsection \<open>Lock order of the comparisons\<close>

lemma Equal_locks:
  assumes "readable (Ptr s) w" and "readable (Ptr t) w"
  shows "Equal (Ptr s) (Ptr t) w \<noteq> None \<and> acquired_by (Equal (Ptr s) (Ptr t)) w = [Ptr s, Ptr t]
       \<and> released_by (Equal (Ptr s) (Ptr t)) w = [Ptr t, Ptr s]"
proof -
  from Equal_eq [OF assms] obtain evs r where
    eq: "Equal (Ptr s) (Ptr t) w = Some (r,
           w\<lparr>events := events w @ [RLocked (Ptr s), RLocked (Ptr t)] @ evs @ [RUnlocked (Ptr t), RUnlocked (Ptr s)]\<rparr>)"
    and evs: "set evs \<subseteq> Probed (Ptr t) ` set (keys_of (m (heap w ! s)))"
    by blast
  have "acquired evs = [] \<and> released evs = []" using evs by (intro acquired_probes) auto
  then show ?thesis by (simp add: acquired_by_def released_by_def eq)
qed

lemma Subset_locks:
  assumes "readable (Ptr s) w" and "readable (Ptr t) w"
  shows "Subset (Ptr s) (Ptr t) w \<noteq> None \<and> acquired_by (Subset (Ptr s) (Ptr t)) w = [Ptr s, Ptr t]
       \<and> released_by (Subset (Ptr s) (Ptr t)) w = [Ptr t, Ptr s]"
proof -
  from Subset_eq [OF assms] obtain evs r where
    eq: "Subset (Ptr s) (Ptr t) w = Some (r,
           w\<lparr>events := events w @ [RLocked (Ptr s), RLocked (Ptr t)] @ evs @ [RUnlocked (Ptr t), RUnlocked (Ptr s)]\<rparr>)"
    and evs: "set evs \<subseteq> Probed (Ptr t) ` set (keys_of (m (heap w ! s)))"
    by blast
  have "acquired evs = [] \<and> released evs = []" using evs by (intro acquired_probes) auto
  then show ?thesis by (simp add: acquired_by_def released_by_def eq)
qed

subsection \<open>Mutations and freshly allocated sets\<close>

lemma mutate_eq:
  assumes "unlocked (Ptr a) w"
  shows "\<exists>T evs. mutate (Ptr a) ops w = Some (w\<lparr>heap := set_tbl a T (heap w), events := events w @ evs\<rparr>)"
  using assms
proof (induction ops arbitrary: w)
  case Nil
  then show ?case by (intro exI [of _ "m (heap w ! a)"] exI [of _ "[]"]) simp
next
  case (Cons op ops)
  define T1 where "T1 = (case op of Insert e \<Rightarrow> map_assign e (m (heap w ! a))
                                  | Remove e \<Rightarrow> map_delete e (m (heap w ! a)))"
  let ?w1 = "w\<lparr>heap := set_tbl a T1 (heap w), events := events w @ [Locked (Ptr a), Unlocked (Ptr a)]\<rparr>"
  have u1: "unlocked (Ptr a) ?w1" using Cons.prems by (simp add: unlocked_Ptr)
  from Cons.IH [OF u1] obtain T evs where
    rest: "mutate (Ptr a) ops ?w1 = Some (?w1\<lparr>heap := set_tbl a T (heap ?w1), events := events ?w1 @ evs\<rparr>)"
    by blast
  have "mutate (Ptr a) (op # ops) w =
      Some (w\<lparr>heap := set_tbl a T (heap w), events := events w @ ([Locked (Ptr a), Unlocked (Ptr a)] @ evs)\<rparr>)"
    using rest Cons.prems by (cases op) (simp_all add: Put_eq Delete_eq T1_def)
  then show ?case by blast
qed

lemma returns_Has_frame:
  assumes "readable (Ptr a) w" and "length H = length (heap w)" and "H ! a = heap w ! a"
  shows "returns (Has (Ptr a) e (w\<lparr>heap := H, events := evs\<rparr>)) (contains w (Ptr a) e)"
proof -
  have "readable (Ptr a) (w\<lparr>heap := H, events := evs\<rparr>)" using assms by (simp add: readable_Ptr)
  then show ?thesis using assms by (simp add: returns_Has contains_eq)
qed

lemma fresh_frame:
  assumes w1: "heap w1 = heap w @ [x]" and x: "mu x = \<lparr>readers = 0, writer = False\<rparr>"
    and a: "unlocked (Ptr a) w"
  shows "\<exists>w2. mutate (Ptr (length (heap w))) ops w1 = Some w2
            \<and> (\<forall>e. returns (Has (Ptr a) e w2) (contains w (Ptr a) e))"
    and "\<exists>w2. mutate (Ptr a) ops w1 = Some w2
            \<and> (\<forall>e. returns (Has (Ptr (length (heap w))) e w2) (e \<in> members (m x)))"
proof -
  have al: "a < length (heap w)" and ar: "readable (Ptr a) w"
    using a by (simp_all add: unlocked_Ptr readable_Ptr)
  have ar1: "readable (Ptr a) w1" using al ar w1 by (simp add: readable_Ptr nth_append)
  have same: "contains w1 (Ptr a) = contains w (Ptr a)"
    using ar ar1 al w1 by (auto simp: contains_eq nth_append fun_eq_iff)
  have u: "unlocked (Ptr (length (heap w))) w1" using w1 x by (simp add: unlocked_Ptr)
  from mutate_eq [OF u, of ops] obtain T evs where
    m1: "mutate (Ptr (length (heap w))) ops w1 =
      Some (w1\<lparr>heap := set_tbl (length (heap w)) T (heap w1), events := events w1 @ evs\<rparr>)"
    by blast
  have "\<forall>e. returns (Has (Ptr a) e (w1\<lparr>heap := set_tbl (length (heap w)) T (heap w1), events := events w1 @ evs\<rparr>))
           (contains w1 (Ptr a) e)"
    using al by (intro allI returns_Has_frame [OF ar1]) (simp_all add: set_tbl_def)
  with m1 same show "\<exists>w2. mutate (Ptr (length (heap w))) ops w1 = Some w2
            \<and> (\<forall>e. returns (Has (Ptr a) e w2) (contains w (Ptr a) e))"
    by simp
  have ua: "unlocked (Ptr a) w1" using a w1 by (simp add: unlocked_Ptr nth_append)
  from mutate_eq [OF ua, of ops] obtain T' evs' where
    m2: "mutate (Ptr a) ops w1 = Some (w1\<lparr>heap := set_tbl a T' (heap w1), events := events w1 @ evs'\<rparr>)"
    by blast
  have rn: "readable (Ptr (length (heap w))) w1" using u by (rule unlocked_readable)
  have cn: "\<And>e. contains w1 (Ptr (length (heap w))) e \<longleftrightarrow> e \<in> members (m x)"
    using rn w1 by (simp add: contains_eq)
  have "\<forall>e. returns (Has (Ptr (length (heap w))) e (w1\<lparr>heap := set_tbl a T' (heap w1), events := events w1 @ evs'\<rparr>))
           (contains w1 (Ptr (length (heap w))) e)"
    using al w1 by (intro allI returns_Has_frame [OF rn]) (simp_all add: set_tbl_def)
  with m2 cn show "\<exists>w2. mutate (Ptr a) ops w1 = Some w2
            \<and> (\<forall>e. returns (Has (Ptr (length (heap w))) e w2) (e \<in> members (m x)))"
    by simp
qed

lemma readable_fresh:
  assumes "heap w1 = heap w @ [x]" and "mu x = \<lparr>readers = 0, writer = False\<rparr>"
  shows "readable (Ptr (length (heap w))) w1"
    and "\<And>e. contains w1 (Ptr (length (heap w))) e \<longleftrightarrow> e \<in> members (m x)"
    and "\<And>e b. returns (Has (Ptr (length (heap w))) e w1) b \<longleftrightarrow> (b \<longleftrightarrow> e \<in> members (m x))"
    and "\<And>n. returns (Len (Ptr (length (heap w))) w1) n \<longleftrightarrow> n = length (list_of_dlist (m x))"
proof -
  show r: "readable (Ptr (length (heap w))) w1" using assms by (simp add: readable_Ptr)
  show "\<And>e. contains w1 (Ptr (length (heap w))) e \<longleftrightarrow> e \<in> members (m x)"
    using r assms by (simp add: contains_eq)
  show "\<And>e b. returns (Has (Ptr (length (heap w))) e w1) b \<longleftrightarrow> (b \<longleftrightarrow> e \<in> members (m x))"
    using r assms by (simp add: returns_Has)
  show "\<And>n. returns (Len (Ptr (length (heap w))) w1) n \<longleftrightarrow> n = length (list_of_dlist (m x))"
    using r assms by (simp add: returns_Len)
qed

lemma readable_old:
  assumes "heap w1 = heap w @ xs" and "readable (Ptr a) w"
  shows "readable (Ptr a) w1" and "heap w1 ! a = heap w ! a" and "contains w1 (Ptr a) = contains w (Ptr a)"
proof -
  have al: "a < length (heap w)" using assms by (simp add: readable_Ptr)
  show r: "readable (Ptr a) w1" using assms al by (simp add: readable_Ptr nth_append)
  show h: "heap w1 ! a = heap w ! a" using assms al by (simp add: nth_append)
  show "contains w1 (Ptr a) = contains w (Ptr a)" using r h assms by (auto simp: contains_eq fun_eq_iff)
qed

lemma deref_fresh [simp]: "deref (Ptr (length (heap w))) w = None"
  by simp

lemma returns_Equal:
  assumes "readable (Ptr a) v" and "readable (Ptr b) v"
  shows "returns (Equal (Ptr a) (Ptr b) v)
     (proper (m (heap v ! a)) \<and> proper (m (heap v ! b))
        \<and> members (m (heap v ! a)) = members (m (heap v ! b)))"
  using Equal_eq [OF assms] unfolding equal_test by auto

lemma Equal_two_fresh:
  assumes "heap w2 = heap w @ [x, y]" and "\<not> writer (mu x)" and "\<not> writer (mu y)"
  shows "returns (Equal (Ptr (length (heap w))) (Ptr (Suc (length (heap w)))) w2)
     (proper (m x) \<and> proper (m y) \<and> members (m x) = members (m y))"
proof -
  have "readable (Ptr (length (heap w))) w2" "readable (Ptr (Suc (length (heap w)))) w2"
    using assms by (simp_all add: readable_Ptr nth_append)
  from returns_Equal [OF this] assms(1) show ?thesis by (simp add: nth_append)
qed

lemma reflexive_keys_Ptr:
  "reflexive_keys (Ptr a) w \<longleftrightarrow> a < length (heap w) \<and> proper (m (heap w ! a))"
  by (simp add: reflexive_keys_def keys_def keys_of_def proper_def list_all_iff)

lemma fresh_resultI:
  assumes res: "res = Some (Ptr (length (heap w)), w1)" and w1: "heap w1 = heap w @ [x]"
    and x: "mu x = \<lparr>readers = 0, writer = False\<rparr>" and inputs: "\<forall>a\<in>set inputs. unlocked (Ptr a) w"
  shows "fresh_result res (map Ptr inputs) w"
proof -
  have 1: "\<forall>ops. \<exists>w2. mutate (Ptr (length (heap w))) ops w1 = Some w2
               \<and> (\<forall>a\<in>set inputs. \<forall>e. returns (Has (Ptr a) e w2) (contains w (Ptr a) e))"
  proof
    fix ops
    have u: "unlocked (Ptr (length (heap w))) w1" using w1 x by (simp add: unlocked_Ptr)
    from mutate_eq [OF u, of ops] obtain w2 where m2: "mutate (Ptr (length (heap w))) ops w1 = Some w2"
      by blast
    have "\<forall>a\<in>set inputs. \<forall>e. returns (Has (Ptr a) e w2) (contains w (Ptr a) e)"
    proof
      fix a assume "a \<in> set inputs"
      with inputs have "unlocked (Ptr a) w" by simp
      from fresh_frame(1) [OF w1 x this, of ops] m2
      show "\<forall>e. returns (Has (Ptr a) e w2) (contains w (Ptr a) e)" by simp
    qed
    with m2 show "\<exists>w2. mutate (Ptr (length (heap w))) ops w1 = Some w2
               \<and> (\<forall>a\<in>set inputs. \<forall>e. returns (Has (Ptr a) e w2) (contains w (Ptr a) e))"
      by blast
  qed
  have 2: "\<forall>a\<in>set inputs. \<forall>ops. \<exists>w2. mutate (Ptr a) ops w1 = Some w2
               \<and> (\<forall>e. returns (Has (Ptr (length (heap w))) e w2) (contains w1 (Ptr (length (heap w))) e))"
  proof (intro ballI allI)
    fix a ops assume "a \<in> set inputs"
    with inputs have "unlocked (Ptr a) w" by simp
    from fresh_frame(2) [OF w1 x this, of ops]
    show "\<exists>w2. mutate (Ptr a) ops w1 = Some w2
               \<and> (\<forall>e. returns (Has (Ptr (length (heap w))) e w2) (contains w1 (Ptr (length (heap w))) e))"
      by (simp add: readable_fresh(2) [OF w1 x])
  qed
  from res 1 2 show ?thesis unfolding fresh_result_def by simp
qed

lemma Intersection_heap:
  assumes "\<forall>a\<in>set sets. readable (Ptr a) w"
  shows "\<exists>T evs. Intersection (map Ptr sets) w = Some (Ptr (length (heap w)),
             w\<lparr>heap := heap w @ [\<lparr>m = T, mu = \<lparr>readers = 0, writer = False\<rparr>\<rparr>],
               events := events w @ evs\<rparr>)
         \<and> members T =
             (if sets = [] then {} else (\<Inter>a\<in>set sets. members (m (heap w ! a))))
         \<and> proper T \<and> (sets = [] \<longrightarrow> T = Dlist.empty)"
proof (cases "sets = []")
  case True
  then show ?thesis
    by (intro exI [of _ "Dlist.empty"] exI [of _ "[]"]) (simp add: Intersection_nil)
next
  case False
  from Intersection_eq [OF assms False] obtain T evs where
    "Intersection (map Ptr sets) w = Some (Ptr (length (heap w)),
             w\<lparr>heap := heap w @ [\<lparr>m = T, mu = \<lparr>readers = 0, writer = False\<rparr>\<rparr>],
               events := events w @ map (RLocked \<circ> Ptr) sets @ evs @ map (RUnlocked \<circ> Ptr) (rev sets)\<rparr>)"
    and "members T = (\<Inter>a\<in>set sets. members (m (heap w ! a)))" and "proper T"
    by blast
  with False show ?thesis by auto
qed

subsection \<open>Keys that are not equal to themselves\<close>

text \<open>
  What a Go map does with a NaN key, in the model: no lookup finds it, every
  \<^verbatim>\<open>Put\<close> of it makes the set one longer, and \<^verbatim>\<open>Delete\<close> of it leaves
  the length.
\<close>

lemma Has_NaN:
  assumes "readable s w"
  shows "returns (Has s (NaN x) w) False"
proof -
  from assms obtain a where s: "s = Ptr a" and r: "readable (Ptr a) w" by (rule readableE)
  from r show ?thesis unfolding s by (simp add: returns_Has members_iff)
qed

lemma Put_NaN_adds_an_entry:
  assumes "unlocked s w" and "returns (Len s w) n"
  shows "\<exists>w1. Put s (NaN x) w = Some w1 \<and> returns (Len s w1) (Suc n)"
proof -
  from assms(1) obtain a where s: "s = Ptr a" and u: "unlocked (Ptr a) w" by (rule unlockedE)
  let ?w1 = "w\<lparr>heap := set_tbl a (map_assign (NaN x) (m (heap w ! a))) (heap w),
                events := events w @ [Locked (Ptr a), Unlocked (Ptr a)]\<rparr>"
  have a: "a < length (heap w)" using u by (simp add: unlocked_Ptr)
  have n: "n = length (list_of_dlist (m (heap w ! a)))"
    using assms(2) unlocked_readable [OF u] by (simp add: s returns_Len)
  have p: "Put (Ptr a) (NaN x) w = Some ?w1" using u by (rule Put_eq)
  have "readable (Ptr a) ?w1" using u by (simp add: readable_Ptr unlocked_Ptr)
  then have "returns (Len (Ptr a) ?w1) (Suc n)"
    using a by (simp add: returns_Len m_set_tbl length_assign_NaN n)
  with p show ?thesis unfolding s by blast
qed

lemma Delete_NaN_removes_nothing:
  assumes "unlocked s w" and "returns (Len s w) n"
  shows "\<exists>w1. Delete s (NaN x) w = Some w1 \<and> returns (Len s w1) n"
proof -
  from assms(1) obtain a where s: "s = Ptr a" and u: "unlocked (Ptr a) w" by (rule unlockedE)
  let ?w1 = "w\<lparr>heap := set_tbl a (map_delete (NaN x) (m (heap w ! a))) (heap w),
                events := events w @ [Locked (Ptr a), Unlocked (Ptr a)]\<rparr>"
  have a: "a < length (heap w)" using u by (simp add: unlocked_Ptr)
  have n: "n = length (list_of_dlist (m (heap w ! a)))"
    using assms(2) unlocked_readable [OF u] by (simp add: s returns_Len)
  have p: "Delete (Ptr a) (NaN x) w = Some ?w1" using u by (rule Delete_eq)
  have "readable (Ptr a) ?w1" using u by (simp add: readable_Ptr unlocked_Ptr)
  then have "returns (Len (Ptr a) ?w1) n"
    using a by (simp add: returns_Len n)
  with p show ?thesis unfolding s by blast
qed

text \<open>The two sets of floating-point numbers: what their callers observe.\<close>

lemma floats_observed:
  shows "unlocked (Ptr 0) floats" and "unlocked (Ptr 1) floats"
    and "keys (Ptr 0) floats = Some [NaN 0, Key 2.5]" and "keys (Ptr 1) floats = Some []"
    and "returns (Len (Ptr 0) floats) 2" and "returns (Len (Ptr 1) floats) 0"
    and "returns (Has (Ptr 0) (Key 2.5) floats) True"
    and "returns (Has (Ptr 0) (NaN 0) floats) False"
    and "\<not> reflexive_keys (Ptr 0) floats" and "reflexive_keys (Ptr 1) floats"
  by code_simp+

text \<open>
  On them, \<^verbatim>\<open>Intersection\<close> drops the NaN, which no lookup finds, while
  \<^verbatim>\<open>Union\<close>, \<^verbatim>\<open>Copy\<close> and \<^verbatim>\<open>Diff\<close> store it anew each time they come
  across it.
\<close>

lemma floats_results:
  shows "returns (do { (i, w) \<leftarrow> Intersection [Ptr 0] floats; Len i w }) 1"
    and "returns (do { (u, w) \<leftarrow> Union_Set [Ptr 0, Ptr 0] floats; Len u w }) 3"
    and "returns (do { (c, w) \<leftarrow> Copy (Ptr 0) floats; Len c w }) 2"
    and "returns (do { (d, w) \<leftarrow> Diff (Ptr 0) (Ptr 1) floats; Len d w }) 2"
  by code_simp+

text \<open>
  They are the sets that the package's functions make: from the empty heap,
  \<^verbatim>\<open>a := New(); a.Put(2.5); a.Put(NaN); b := New()\<close> gives the heap of \<open>floats\<close>.
\<close>

lemma floats_made:
  "do { (a, w) \<leftarrow> Some (New \<lparr>heap = [], events = []\<rparr>);
        w \<leftarrow> Put a (Key 2.5) w;
        w \<leftarrow> Put a (NaN 0) w;
        (b, w) \<leftarrow> Some (New w);
        Some (a, b, heap w) } = Some (Ptr 0, Ptr 1, heap floats)"
  by code_simp

subsection \<open>The package's test\<close>

text \<open>The model passes the test: the five values are the ones the test requires.\<close>

lemma TestStuff_passes: "TestStuff = Some (True, 1, True, False, True)"
  by code_simp

subsection \<open>Calls that do not return\<close>

text \<open>
  The failures of the model are not idle: a call through \<^verbatim>\<open>nil\<close> panics, and
  \<^verbatim>\<open>Put\<close> on a set whose read lock is held never returns.
\<close>

lemma RLock_Nil [simp]: "RLock Nil w = None"
  by (simp add: RLock_def)

lemma Lock_Nil [simp]: "Lock Nil w = None"
  by (simp add: Lock_def)

lemma nil_pointer_panics:
  shows "Has Nil e w = None" and "Len Nil w = None"
    and "Put Nil e w = None" and "Delete Nil e w = None"
    and "Copy Nil w = None" and "Diff s Nil w = None" and "Diff Nil t w = None"
    and "Subset Nil t w = None" and "Subset s Nil w = None"
    and "Equal Nil t w = None" and "Equal s Nil w = None"
    and "Intersection (Nil # sets) w = None" and "Union_Set (Nil # sets) w = None"
  by (simp_all add: Has_def Len_def Put_def Delete_def Copy_def Diff_def Subset_def Equal_def
      Intersection_def Union_Set_def Range_Set_def New_def split: Option.bind_split)

lemma Put_waits_for_readers:
  assumes "deref p w = Some s" and "readers (mu s) \<noteq> 0"
  shows "Put p e w = None"
  using assms by (simp add: Put_def Lock_def mu_Lock_def)

section \<open>The properties of the specification\<close>

text \<open>
  Each property is stated for a single caller, on worlds in which the sets involved can
  be read (or, where they are mutated, are unlocked), and each says that the calls return
  as well as what they return. Elements range over all values of the element type, those
  that are not equal to themselves included; where a property of the specification holds
  only for keys that are equal to themselves, an instance with a NaN shows what the code
  does otherwise, and the property is then proved with that condition.
\<close>

subsection \<open>Insert, contains, remove\<close>




subsection \<open>Equality and inclusion\<close>

text \<open>
  C4, as the specification states it: \<^verbatim>\<open>s.Equal(t)\<close> returns true exactly when \<open>s\<close>
  and \<open>t\<close> have the same members. The code does not do this for a set that holds a key
  not equal to itself: the set \<open>{2.5, NaN}\<close> has the same members as itself, and
  \<^verbatim>\<open>Equal\<close> called on it and itself returns false, its loop looking up NaN in vain.
\<close>

theorem Equal_false_on_same_set_with_NaN:
  "readable (Ptr 0) floats
   \<and> returns (Equal (Ptr 0) (Ptr 0) floats) False
   \<and> \<not> returns (Equal (Ptr 0) (Ptr 0) floats)
         (\<forall>e. contains floats (Ptr 0) e \<longleftrightarrow> contains floats (Ptr 0) e)"
proof -
  have "readable (Ptr 0) floats" by code_simp
  moreover have f: "returns (Equal (Ptr 0) (Ptr 0) floats) False" by code_simp
  moreover from f have "\<not> returns (Equal (Ptr 0) (Ptr 0) floats) True"
    by (auto simp: returns_def split: option.splits)
  ultimately show ?thesis by simp
qed

text \<open>
  C4, as the code has it. For readable sets \<open>s\<close> and \<open>t\<close>, \<^verbatim>\<open>s.Equal(t)\<close> returns
  true exactly when every key of \<open>s\<close> and of \<open>t\<close> is equal to itself and \<open>s\<close> and \<open>t\<close>
  have the same members. For such sets, having the same members is the same as having
  the same size with every member of \<open>s\<close> a member of \<open>t\<close>. For all readable sets, when
  the sizes differ \<^verbatim>\<open>Equal\<close> returns false after the size check alone: the history it
  adds consists of the two lock and the two unlock calls, with no probe of any element.
\<close>

theorem Equal_identical_membership:
  assumes "readable s w" and "readable t w"
  shows "returns (Equal s t w)
           (reflexive_keys s w \<and> reflexive_keys t w \<and> (\<forall>e. contains w s e \<longleftrightarrow> contains w t e))
       \<and> (reflexive_keys s w \<and> reflexive_keys t w \<longrightarrow>
            ((\<forall>e. contains w s e \<longleftrightarrow> contains w t e) \<longleftrightarrow>
               (\<exists>n. returns (Len s w) n \<and> returns (Len t w) n)
                 \<and> (\<forall>e. contains w s e \<longrightarrow> contains w t e)))
       \<and> (\<forall>k l. returns (Len s w) k \<and> returns (Len t w) l \<and> k \<noteq> l \<longrightarrow>
            (\<exists>w'. Equal s t w = Some (False, w')
               \<and> new_events w w' = [RLocked s, RLocked t, RUnlocked t, RUnlocked s]))"
proof -
  from assms(1) obtain a where s: "s = Ptr a" and ra: "readable (Ptr a) w" by (rule readableE)
  from assms(2) obtain b where t: "t = Ptr b" and rb: "readable (Ptr b) w" by (rule readableE)
  note rab = ra rb
  let ?S = "m (heap w ! a)" and ?T = "m (heap w ! b)"
  let ?xs = "list_of_dlist ?S" and ?ys = "list_of_dlist ?T"
  from Equal_eq [OF rab] obtain evs where
    eq: "Equal (Ptr a) (Ptr b) w = Some (length ?xs = length ?ys \<and> set (keys_of ?S) \<subseteq> members ?T,
           w\<lparr>events := events w @ [RLocked (Ptr a), RLocked (Ptr b)] @ evs @ [RUnlocked (Ptr b), RUnlocked (Ptr a)]\<rparr>)"
    and short: "length ?xs \<noteq> length ?ys \<longrightarrow> evs = []"
    by blast
  have pa: "reflexive_keys (Ptr a) w \<longleftrightarrow> proper ?S" and pb: "reflexive_keys (Ptr b) w \<longleftrightarrow> proper ?T"
    using rab by (simp_all add: reflexive_keys_Ptr readable_Ptr)
  have mem: "(\<forall>e. contains w (Ptr a) e \<longleftrightarrow> contains w (Ptr b) e) \<longleftrightarrow> members ?S = members ?T"
    using rab by (auto simp: contains_eq)
  have sub: "(\<forall>e. contains w (Ptr a) e \<longrightarrow> contains w (Ptr b) e) \<longleftrightarrow> members ?S \<subseteq> members ?T"
    using rab by (auto simp: contains_eq)
  have lens: "(\<exists>n. returns (Len (Ptr a) w) n \<and> returns (Len (Ptr b) w) n) \<longleftrightarrow> length ?xs = length ?ys"
    using rab by (auto simp: returns_Len)
  have 1: "returns (Equal (Ptr a) (Ptr b) w)
             (reflexive_keys (Ptr a) w \<and> reflexive_keys (Ptr b) w
                \<and> (\<forall>e. contains w (Ptr a) e \<longleftrightarrow> contains w (Ptr b) e))"
    unfolding mem pa pb eq equal_test by simp
  have 2: "reflexive_keys (Ptr a) w \<and> reflexive_keys (Ptr b) w \<longrightarrow>
            ((\<forall>e. contains w (Ptr a) e \<longleftrightarrow> contains w (Ptr b) e) \<longleftrightarrow>
               (\<exists>n. returns (Len (Ptr a) w) n \<and> returns (Len (Ptr b) w) n)
                 \<and> (\<forall>e. contains w (Ptr a) e \<longrightarrow> contains w (Ptr b) e))"
  proof
    assume "reflexive_keys (Ptr a) w \<and> reflexive_keys (Ptr b) w"
    then have p: "proper ?S" "proper ?T" by (simp_all add: pa pb)
    from p equal_test [of ?S ?T]
    have "members ?S = members ?T \<longleftrightarrow> length ?xs = length ?ys \<and> members ?S \<subseteq> members ?T"
      by (simp add: proper_members)
    then show "(\<forall>e. contains w (Ptr a) e \<longleftrightarrow> contains w (Ptr b) e) \<longleftrightarrow>
               (\<exists>n. returns (Len (Ptr a) w) n \<and> returns (Len (Ptr b) w) n)
                 \<and> (\<forall>e. contains w (Ptr a) e \<longrightarrow> contains w (Ptr b) e)"
      unfolding mem sub lens .
  qed
  have 3: "\<forall>k l. returns (Len (Ptr a) w) k \<and> returns (Len (Ptr b) w) l \<and> k \<noteq> l \<longrightarrow>
            (\<exists>w'. Equal (Ptr a) (Ptr b) w = Some (False, w')
               \<and> new_events w w' = [RLocked (Ptr a), RLocked (Ptr b), RUnlocked (Ptr b), RUnlocked (Ptr a)])"
  proof (intro allI impI)
    fix k l assume "returns (Len (Ptr a) w) k \<and> returns (Len (Ptr b) w) l \<and> k \<noteq> l"
    with rab have ne: "length ?xs \<noteq> length ?ys" by (simp add: returns_Len)
    with short have "evs = []" by simp
    with eq ne show "\<exists>w'. Equal (Ptr a) (Ptr b) w = Some (False, w')
               \<and> new_events w w' = [RLocked (Ptr a), RLocked (Ptr b), RUnlocked (Ptr b), RUnlocked (Ptr a)]"
      by simp
  qed
  from 1 2 3 show ?thesis unfolding s t by blast
qed

theorem Equal_identical_membership_witness:
  "readable (Ptr 0) cities \<and> readable (Ptr 1) cities \<and> readable (Ptr 2) cities
   \<and> reflexive_keys (Ptr 2) cities
   \<and> returns (Equal (Ptr 2) (Ptr 2) cities) True
   \<and> returns (Len (Ptr 0) cities) 6 \<and> returns (Len (Ptr 1) cities) 4
   \<and> returns (Equal (Ptr 0) (Ptr 1) cities) False
   \<and> (\<exists>w'. Equal (Ptr 0) (Ptr 1) cities = Some (False, w')
         \<and> new_events cities w' = [RLocked (Ptr 0), RLocked (Ptr 1), RUnlocked (Ptr 1), RUnlocked (Ptr 0)])"
proof -
  have r: "readable (Ptr 0) cities" "readable (Ptr 1) cities" "readable (Ptr 2) cities"
    by (simp_all add: readable_Ptr cities_def)
  have k: "reflexive_keys (Ptr 2) cities"
    by (simp add: reflexive_keys_Ptr proper_def keys_of_def) (simp add: cities_def)
  have l: "returns (Len (Ptr 0) cities) 6" "returns (Len (Ptr 1) cities) 4"
    using r by (simp_all add: returns_Len) (simp_all add: cities_def)
  have ne: "(6::nat) \<noteq> 4" by simp
  from k have same: "(reflexive_keys (Ptr 2) cities \<and> reflexive_keys (Ptr 2) cities
      \<and> (\<forall>e. contains cities (Ptr 2) e \<longleftrightarrow> contains cities (Ptr 2) e)) = True"
    by simp
  from Equal_identical_membership [OF r(3) r(3), THEN conjunct1]
  have self: "returns (Equal (Ptr 2) (Ptr 2) cities) True" by (simp only: same)
  note E = Equal_identical_membership [OF r(1) r(2), THEN conjunct2, THEN conjunct2, rule_format, of 6 4]
  from l ne have short: "\<exists>w'. Equal (Ptr 0) (Ptr 1) cities = Some (False, w')
         \<and> new_events cities w' = [RLocked (Ptr 0), RLocked (Ptr 1), RUnlocked (Ptr 1), RUnlocked (Ptr 0)]"
    by (intro E conjI)
  then have "returns (Equal (Ptr 0) (Ptr 1) cities) False" by auto
  with r k self l short show ?thesis by blast
qed

text \<open>
  C8, as the specification states it: \<^verbatim>\<open>s.Subset(t)\<close> returns true exactly when every
  member of \<open>s\<close> is a member of \<open>t\<close>. The code does not do this for a set that holds a
  key not equal to itself: every member of \<open>{2.5, NaN}\<close> is a member of it, and
  \<^verbatim>\<open>Subset\<close> called on it and itself returns false.
\<close>

theorem Subset_false_on_same_set_with_NaN:
  "readable (Ptr 0) floats
   \<and> returns (Subset (Ptr 0) (Ptr 0) floats) False
   \<and> \<not> returns (Subset (Ptr 0) (Ptr 0) floats)
         (\<forall>e. contains floats (Ptr 0) e \<longrightarrow> contains floats (Ptr 0) e)"
proof -
  have "readable (Ptr 0) floats" by code_simp
  moreover have f: "returns (Subset (Ptr 0) (Ptr 0) floats) False" by code_simp
  moreover from f have "\<not> returns (Subset (Ptr 0) (Ptr 0) floats) True"
    by (auto simp: returns_def split: option.splits)
  ultimately show ?thesis by simp
qed

text \<open>
  C8, as the code has it. For readable sets \<open>s\<close> and \<open>t\<close>, \<^verbatim>\<open>s.Subset(t)\<close> returns
  true exactly when every key of \<open>s\<close> is equal to itself and every member of \<open>s\<close> is a
  member of \<open>t\<close>. A set of size 0 is a subset of every set and of itself; a set whose
  keys are equal to themselves and that has no member is of size 0. When
  \<^verbatim>\<open>s.Equal(t)\<close> has returned true, \<^verbatim>\<open>s.Subset(t)\<close> and \<^verbatim>\<open>t.Subset(s)\<close>
  return true.
\<close>

theorem Subset_iff_every_member:
  assumes "readable s w" and "readable t w"
  shows "returns (Subset s t w) (reflexive_keys s w \<and> (\<forall>e. contains w s e \<longrightarrow> contains w t e))
       \<and> (returns (Len s w) 0 \<longrightarrow> returns (Subset s t w) True \<and> returns (Subset s s w) True)
       \<and> (reflexive_keys s w \<and> (\<forall>e. \<not> contains w s e) \<longrightarrow> returns (Len s w) 0)
       \<and> (\<forall>w1. Equal s t w = Some (True, w1) \<longrightarrow>
             returns (Subset s t w1) True \<and> returns (Subset t s w1) True)"
proof -
  from assms(1) obtain a where s: "s = Ptr a" and ra: "readable (Ptr a) w" by (rule readableE)
  from assms(2) obtain b where t: "t = Ptr b" and rb: "readable (Ptr b) w" by (rule readableE)
  note rab = ra rb
  let ?S = "m (heap w ! a)" and ?T = "m (heap w ! b)"
  have pa: "reflexive_keys (Ptr a) w \<longleftrightarrow> proper ?S"
    using ra by (simp add: reflexive_keys_Ptr readable_Ptr)
  have mem: "(\<forall>e. contains w (Ptr a) e \<longrightarrow> contains w (Ptr b) e) \<longleftrightarrow> members ?S \<subseteq> members ?T"
    using rab by (auto simp: contains_eq)
  have test: "set (keys_of ?S) \<subseteq> members ?T \<longleftrightarrow> proper ?S \<and> members ?S \<subseteq> members ?T"
    by (auto simp: proper_def members_keys dest: members_refl)
  have 1: "returns (Subset (Ptr a) (Ptr b) w)
             (reflexive_keys (Ptr a) w \<and> (\<forall>e. contains w (Ptr a) e \<longrightarrow> contains w (Ptr b) e))"
    unfolding mem pa test [symmetric] by (rule returns_Subset [OF rab])
  have 2: "returns (Len (Ptr a) w) 0 \<longrightarrow>
             returns (Subset (Ptr a) (Ptr b) w) True \<and> returns (Subset (Ptr a) (Ptr a) w) True"
  proof
    assume "returns (Len (Ptr a) w) 0"
    then have "keys_of ?S = []" using ra by (simp add: returns_Len keys_of_def)
    with returns_Subset [OF rab] returns_Subset [OF rab(1) rab(1)]
    show "returns (Subset (Ptr a) (Ptr b) w) True \<and> returns (Subset (Ptr a) (Ptr a) w) True" by simp
  qed
  have 3: "reflexive_keys (Ptr a) w \<and> (\<forall>e. \<not> contains w (Ptr a) e) \<longrightarrow> returns (Len (Ptr a) w) 0"
  proof
    assume a: "reflexive_keys (Ptr a) w \<and> (\<forall>e. \<not> contains w (Ptr a) e)"
    then have "proper ?S" and "members ?S = {}" using ra by (auto simp: pa contains_eq)
    then have "set (keys_of ?S) = {}" by (simp add: proper_members)
    then show "returns (Len (Ptr a) w) 0" using ra by (simp add: returns_Len keys_of_def)
  qed
  have 4: "\<forall>w1. Equal (Ptr a) (Ptr b) w = Some (True, w1) \<longrightarrow>
             returns (Subset (Ptr a) (Ptr b) w1) True \<and> returns (Subset (Ptr b) (Ptr a) w1) True"
  proof (intro allI impI)
    fix w1 assume e: "Equal (Ptr a) (Ptr b) w = Some (True, w1)"
    from Equal_eq [OF rab] e obtain evs where
      w1: "w1 = w\<lparr>events := events w @ [RLocked (Ptr a), RLocked (Ptr b)] @ evs @ [RUnlocked (Ptr b), RUnlocked (Ptr a)]\<rparr>"
      and tr: "length (list_of_dlist ?S) = length (list_of_dlist ?T) \<and> set (keys_of ?S) \<subseteq> members ?T"
      by auto
    from tr have p: "proper ?S" "proper ?T" "members ?S = members ?T"
      unfolding equal_test by simp_all
    then have k: "set (keys_of ?S) \<subseteq> members ?T" "set (keys_of ?T) \<subseteq> members ?S"
      by (simp_all add: proper_members)
    have r1: "readable (Ptr a) w1" "readable (Ptr b) w1" using rab by (simp_all add: w1 readable_Ptr)
    have h: "heap w1 = heap w" by (simp add: w1)
    from returns_Subset [OF r1] returns_Subset [OF r1(2) r1(1)] k
    show "returns (Subset (Ptr a) (Ptr b) w1) True \<and> returns (Subset (Ptr b) (Ptr a) w1) True"
      by (simp add: h)
  qed
  from 1 2 3 4 show ?thesis unfolding s t by blast
qed

theorem Subset_iff_every_member_witness:
  "readable (Ptr 2) cities \<and> readable (Ptr 0) cities \<and> reflexive_keys (Ptr 2) cities
   \<and> contains cities (Ptr 2) (Key ''bern'') \<and> \<not> contains cities (Ptr 0) (Key ''bern'')
   \<and> returns (Subset (Ptr 2) (Ptr 0) cities) False
   \<and> returns (Subset (Ptr 2) (Ptr 2) cities) True"
proof -
  have r: "readable (Ptr 2) cities" "readable (Ptr 0) cities" by (simp_all add: readable_Ptr cities_def)
  have k: "reflexive_keys (Ptr 2) cities"
    by (simp add: reflexive_keys_Ptr proper_def keys_of_def) (simp add: cities_def)
  have c: "contains cities (Ptr 2) (Key ''bern'')" "\<not> contains cities (Ptr 0) (Key ''bern'')"
    using r by (simp_all add: contains_eq members_iff) (simp_all add: cities_def)
  from c have "(reflexive_keys (Ptr 2) cities
      \<and> (\<forall>e. contains cities (Ptr 2) e \<longrightarrow> contains cities (Ptr 0) e)) = False" by blast
  with Subset_iff_every_member [OF r, THEN conjunct1]
  have f: "returns (Subset (Ptr 2) (Ptr 0) cities) False" by simp
  from k have "(reflexive_keys (Ptr 2) cities
      \<and> (\<forall>e. contains cities (Ptr 2) e \<longrightarrow> contains cities (Ptr 2) e)) = True" by simp
  with Subset_iff_every_member [OF r(1) r(1), THEN conjunct1]
  have t: "returns (Subset (Ptr 2) (Ptr 2) cities) True" by simp
  from r k c f t show ?thesis by blast
qed

subsection \<open>The order of lock acquisition\<close>

text \<open>
  C9, as the specification states it: \<^verbatim>\<open>Subset\<close> and \<^verbatim>\<open>Equal\<close> take the locks of
  their two sets in one order fixed by the identity of the sets, whatever the order of the
  arguments. The code does not: for the sets at \<open>Ptr 0\<close> and \<open>Ptr 1\<close>, \<^verbatim>\<open>Equal\<close> called
  one way takes the lock of the first before that of the second, and called the other way
  that of the second before that of the first, so no asymmetric
  relation on identities orders the acquisitions of both calls.
\<close>

theorem locks_not_ordered_by_identity:
  "\<not> (\<exists>prec. (\<forall>a b. prec a b \<longrightarrow> \<not> prec b a)
         \<and> sorted_wrt prec (acquired_by (Equal (Ptr 0) (Ptr 1)) cities)
         \<and> sorted_wrt prec (acquired_by (Equal (Ptr 1) (Ptr 0)) cities))"
proof -
  have r: "readable (Ptr 0) cities" "readable (Ptr 1) cities" by (simp_all add: readable_Ptr cities_def)
  have "acquired_by (Equal (Ptr 0) (Ptr 1)) cities = [Ptr 0, Ptr 1]" using Equal_locks [OF r] by simp
  moreover have "acquired_by (Equal (Ptr 1) (Ptr 0)) cities = [Ptr 1, Ptr 0]" using Equal_locks [OF r(2) r(1)] by simp
  ultimately show ?thesis by auto
qed

text \<open>
  C9, as the code has it: for readable sets \<open>s\<close> and \<open>t\<close>, \<^verbatim>\<open>s.Equal(t)\<close> and
  \<^verbatim>\<open>s.Subset(t)\<close> return, having taken
  the read lock of the receiver \<open>s\<close> first and that of the argument \<open>t\<close> second, and
  having released them in the reverse order. The order is that of the call, not one
  derived from the identity of the sets.
\<close>

theorem locks_in_argument_order:
  assumes "readable s w" and "readable t w"
  shows "Equal s t w \<noteq> None \<and> Subset s t w \<noteq> None
       \<and> acquired_by (Equal s t) w = [s, t] \<and> released_by (Equal s t) w = [t, s]
       \<and> acquired_by (Subset s t) w = [s, t] \<and> released_by (Subset s t) w = [t, s]"
proof -
  from assms(1) obtain a where s: "s = Ptr a" and ra: "readable (Ptr a) w" by (rule readableE)
  from assms(2) obtain b where t: "t = Ptr b" and rb: "readable (Ptr b) w" by (rule readableE)
  from Equal_locks [OF ra rb] Subset_locks [OF ra rb] show ?thesis unfolding s t by simp
qed

theorem locks_in_argument_order_witness:
  "readable (Ptr 0) cities \<and> readable (Ptr 1) cities
   \<and> acquired_by (Equal (Ptr 0) (Ptr 1)) cities = [Ptr 0, Ptr 1] \<and> acquired_by (Equal (Ptr 1) (Ptr 0)) cities = [Ptr 1, Ptr 0]
   \<and> acquired_by (Subset (Ptr 0) (Ptr 1)) cities = [Ptr 0, Ptr 1] \<and> acquired_by (Subset (Ptr 1) (Ptr 0)) cities = [Ptr 1, Ptr 0]"
proof -
  have r: "readable (Ptr 0) cities" "readable (Ptr 1) cities" by (simp_all add: readable_Ptr cities_def)
  from locks_in_argument_order [OF r] locks_in_argument_order [OF r(2) r(1)] r
  show ?thesis by simp
qed

subsection \<open>Copies\<close>

text \<open>
  C6, as the specification states it: for every set \<open>s\<close>, \<^verbatim>\<open>s.Equal(s.Copy())\<close> is
  true. The code does not do this for a set that holds a key not equal to itself: for the
  set \<open>{2.5, NaN}\<close>, \<^verbatim>\<open>Copy\<close> returns a set with the keys 2.5 and NaN, and
  \<^verbatim>\<open>Equal\<close> called on the set and its copy returns false.
\<close>

theorem Copy_of_set_with_NaN_not_Equal:
  "unlocked (Ptr 0) floats
   \<and> returns (do { (c, w1) \<leftarrow> Copy (Ptr 0) floats; Equal (Ptr 0) c w1 }) False
   \<and> returns (do { (c, w1) \<leftarrow> Copy (Ptr 0) floats; Len c w1 }) 2"
proof -
  have "unlocked (Ptr 0) floats" by code_simp
  moreover have "returns (do { (c, w1) \<leftarrow> Copy (Ptr 0) floats; Equal (Ptr 0) c w1 }) False"
    by code_simp
  moreover have "returns (do { (c, w1) \<leftarrow> Copy (Ptr 0) floats; Len c w1 }) 2"
    by code_simp
  ultimately show ?thesis by simp
qed

text \<open>
  C6, as the code has it. For an unlocked set \<open>s\<close>, \<^verbatim>\<open>s.Copy()\<close> returns a set \<open>c\<close>
  that did not exist before, and \<^verbatim>\<open>s.Equal(c)\<close> returns true when every key of \<open>s\<close>
  is equal to itself (and false otherwise). Whatever sequence of insertions and removals
  is then applied to \<open>c\<close>, every \<^verbatim>\<open>s.Has(e)\<close> still returns what it returned before
  the copy was made; and whatever sequence is applied to \<open>s\<close>, \<open>c\<close> keeps the members
  that \<open>s\<close> had when it was copied.
\<close>

theorem Copy_independent:
  assumes "unlocked s w"
  shows "\<exists>c w1. Copy s w = Some (c, w1) \<and> c \<noteq> s \<and> deref c w = None
           \<and> returns (Equal s c w1) (reflexive_keys s w)
           \<and> (\<forall>ops. \<exists>w2. mutate c ops w1 = Some w2
                  \<and> (\<forall>e. returns (Has s e w2) (contains w s e)))
           \<and> (\<forall>ops. \<exists>w2. mutate s ops w1 = Some w2
                  \<and> (\<forall>e. returns (Has c e w2) (contains w s e)))"
proof -
  from assms obtain a where s: "s = Ptr a" and ua: "unlocked (Ptr a) w" by (rule unlockedE)
  let ?S = "m (heap w ! a)"
  define x :: "'a Set" where
    "x = \<lparr>m = fold map_assign (keys_of ?S) Dlist.empty, mu = \<lparr>readers = 0, writer = False\<rparr>\<rparr>"
  define w1 where "w1 = w\<lparr>heap := heap w @ [x], events := events w @ [RLocked (Ptr a), RUnlocked (Ptr a)]\<rparr>"
  define n where "n = length (heap w)"
  have r: "readable (Ptr a) w" using ua by (rule unlocked_readable)
  have sl: "a < length (heap w)" using r by (simp add: readable_Ptr)
  have cp: "Copy (Ptr a) w = Some (Ptr n, w1)" using Copy_eq [OF r] by (simp add: n_def w1_def x_def)
  have h1: "heap w1 = heap w @ [x]" by (simp add: w1_def)
  have mx: "mu x = \<lparr>readers = 0, writer = False\<rparr>" by (simp add: x_def)
  have sx: "members (m x) = members ?S" by (simp add: x_def members_fold_keys)
  have px: "proper ?S \<Longrightarrow> proper (m x)"
  proof -
    assume "proper ?S"
    then have "\<forall>e\<in>set (keys_of ?S). eq_key e e" by (simp add: proper_def)
    with proper_empty have "proper (fold map_assign (keys_of ?S) Dlist.empty)"
      by (rule proper_fold_assign)
    then show "proper (m x)" by (simp add: x_def)
  qed
  have rs1: "readable (Ptr a) w1" and hs1: "heap w1 ! a = heap w ! a"
    using readable_old [OF h1 r] by simp_all
  have rc1: "readable (Ptr n) w1" unfolding n_def by (rule readable_fresh(1) [OF h1 mx])
  have hc1: "heap w1 ! n = x" by (simp add: w1_def n_def)
  have pa: "reflexive_keys (Ptr a) w \<longleftrightarrow> proper ?S" using sl by (simp add: reflexive_keys_Ptr)
  have "(proper ?S \<and> proper (m x) \<and> members ?S = members (m x)) \<longleftrightarrow> proper ?S"
    using sx px by auto
  with returns_Equal [OF rs1 rc1] have eq: "returns (Equal (Ptr a) (Ptr n) w1) (reflexive_keys (Ptr a) w)"
    by (simp add: hs1 hc1 pa)
  have cs: "\<And>e. contains w (Ptr a) e \<longleftrightarrow> e \<in> members (m x)"
    using r sx by (simp add: contains_eq)
  have f1: "\<forall>ops. \<exists>w2. mutate (Ptr n) ops w1 = Some w2 \<and> (\<forall>e. returns (Has (Ptr a) e w2) (contains w (Ptr a) e))"
    unfolding n_def using fresh_frame(1) [OF h1 mx ua] by blast
  have f2: "\<forall>ops. \<exists>w2. mutate (Ptr a) ops w1 = Some w2 \<and> (\<forall>e. returns (Has (Ptr n) e w2) (contains w (Ptr a) e))"
    unfolding n_def cs using fresh_frame(2) [OF h1 mx ua] by blast
  have "Ptr n \<noteq> Ptr a" using sl by (simp add: n_def)
  moreover have "deref (Ptr n) w = None" by (simp add: n_def)
  ultimately show ?thesis unfolding s using cp eq f1 f2 by blast
qed

theorem Copy_independent_witness:
  "unlocked (Ptr 1) cities \<and> reflexive_keys (Ptr 1) cities
   \<and> (\<exists>c w1. Copy (Ptr 1) cities = Some (c, w1) \<and> c \<noteq> Ptr 1
         \<and> returns (Equal (Ptr 1) c w1) True
         \<and> (\<exists>w2. mutate c [Remove (Key ''york'')] w1 = Some w2
               \<and> returns (Has (Ptr 1) (Key ''york'') w2) True)
         \<and> (\<exists>w2. mutate (Ptr 1) [Remove (Key ''york''), Insert (Key ''bern'')] w1 = Some w2
               \<and> returns (Has c (Key ''york'') w2) True \<and> returns (Has c (Key ''bern'') w2) False))"
proof -
  have u: "unlocked (Ptr 1) cities" by (simp add: unlocked_Ptr cities_def)
  have k: "reflexive_keys (Ptr 1) cities"
    by (simp add: reflexive_keys_Ptr proper_def keys_of_def) (simp add: cities_def)
  have y: "contains cities (Ptr 1) (Key ''york'')" "\<not> contains cities (Ptr 1) (Key ''bern'')"
    using unlocked_readable [OF u] by (simp_all add: contains_eq members_iff) (simp_all add: cities_def)
  from Copy_independent [OF u] obtain c w1 where
    c: "Copy (Ptr 1) cities = Some (c, w1)" "c \<noteq> Ptr 1"
    and e: "returns (Equal (Ptr 1) c w1) (reflexive_keys (Ptr 1) cities)"
    and f1: "\<forall>ops. \<exists>w2. mutate c ops w1 = Some w2
                  \<and> (\<forall>e. returns (Has (Ptr 1) e w2) (contains cities (Ptr 1) e))"
    and f2: "\<forall>ops. \<exists>w2. mutate (Ptr 1) ops w1 = Some w2
                  \<and> (\<forall>e. returns (Has c e w2) (contains cities (Ptr 1) e))"
    by blast
  from e k have e': "returns (Equal (Ptr 1) c w1) True" by simp
  from f1 obtain w2 where
    m2: "mutate c [Remove (Key ''york'')] w1 = Some w2"
    and h2: "\<forall>e. returns (Has (Ptr 1) e w2) (contains cities (Ptr 1) e)"
    by blast
  from h2 [rule_format, of "Key ''york''"] y(1) have "returns (Has (Ptr 1) (Key ''york'') w2) True" by simp
  with m2 have a: "\<exists>w2. mutate c [Remove (Key ''york'')] w1 = Some w2
               \<and> returns (Has (Ptr 1) (Key ''york'') w2) True"
    by blast
  from f2 obtain w3 where
    m3: "mutate (Ptr 1) [Remove (Key ''york''), Insert (Key ''bern'')] w1 = Some w3"
    and h3: "\<forall>e. returns (Has c e w3) (contains cities (Ptr 1) e)"
    by blast
  from h3 [rule_format, of "Key ''york''"] h3 [rule_format, of "Key ''bern''"] y
  have "returns (Has c (Key ''york'') w3) True \<and> returns (Has c (Key ''bern'') w3) False" by simp
  with m3 have b: "\<exists>w2. mutate (Ptr 1) [Remove (Key ''york''), Insert (Key ''bern'')] w1 = Some w2
               \<and> returns (Has c (Key ''york'') w2) True \<and> returns (Has c (Key ''bern'') w2) False"
    by blast
  from u k c e' a b show ?thesis by blast
qed

subsection \<open>Intersection and union\<close>

text \<open>
  C1. For readable inputs, \<^verbatim>\<open>Intersection(s1, ..., sn)\<close> returns a set \<open>i\<close> such that, for every \<open>e\<close>,
  \<^verbatim>\<open>i.Has(e)\<close> returns true exactly when there is at least one input and every input
  had \<open>e\<close>. With no input the result is empty: it has no member and its length is 0.
\<close>

theorem Intersection_membership:
  assumes "\<forall>a\<in>set sets. readable a w"
  shows "\<exists>i w1. Intersection sets w = Some (i, w1)
           \<and> (\<forall>e. returns (Has i e w1) (sets \<noteq> [] \<and> (\<forall>a\<in>set sets. contains w a e)))
           \<and> (sets = [] \<longrightarrow> returns (Len i w1) 0)"
proof -
  from readable_all [OF assms] obtain as where
    sets: "sets = map Ptr as" and r: "\<forall>a\<in>set as. readable (Ptr a) w"
    by blast
  have c: "\<And>e. (\<forall>p\<in>set sets. contains w p e)
             \<longleftrightarrow> (\<forall>a\<in>set as. e \<in> members (m (heap w ! a)))"
    using r by (simp add: sets contains_eq)
  from Intersection_heap [OF r] obtain T evs where
    i: "Intersection (map Ptr as) w = Some (Ptr (length (heap w)),
             w\<lparr>heap := heap w @ [\<lparr>m = T, mu = \<lparr>readers = 0, writer = False\<rparr>\<rparr>],
               events := events w @ evs\<rparr>)"
    and T: "members T =
             (if as = [] then {} else (\<Inter>a\<in>set as. members (m (heap w ! a))))"
    and T0: "as = [] \<longrightarrow> T = Dlist.empty"
    by blast
  let ?x = "\<lparr>m = T, mu = \<lparr>readers = 0, writer = False\<rparr>\<rparr>"
  let ?w1 = "w\<lparr>heap := heap w @ [?x], events := events w @ evs\<rparr>"
  have h: "heap ?w1 = heap w @ [?x]" "mu ?x = \<lparr>readers = 0, writer = False\<rparr>" by simp_all
  have mem: "\<And>e. (sets \<noteq> [] \<and> (\<forall>p\<in>set sets. contains w p e)) \<longleftrightarrow> e \<in> members T"
    unfolding c using T by (auto simp: sets)
  have 1: "\<forall>e. returns (Has (Ptr (length (heap w))) e ?w1)
               (sets \<noteq> [] \<and> (\<forall>p\<in>set sets. contains w p e))"
    using readable_fresh(3) [OF h] by (simp add: mem)
  have 2: "sets = [] \<longrightarrow> returns (Len (Ptr (length (heap w))) ?w1) 0"
  proof
    assume "sets = []"
    with T0 have "list_of_dlist T = []" by (simp add: sets)
    then show "returns (Len (Ptr (length (heap w))) ?w1) 0"
      using readable_fresh(4) [OF h] by simp
  qed
  from i 1 2 show ?thesis unfolding sets [symmetric] by blast
qed

theorem Intersection_membership_witness:
  "readable (Ptr 0) cities \<and> readable (Ptr 1) cities \<and> readable (Ptr 2) cities
   \<and> (\<exists>i w1. Intersection [Ptr 0, Ptr 1, Ptr 2] cities = Some (i, w1)
         \<and> returns (Has i (Key ''london'') w1) True \<and> returns (Has i (Key ''turin'') w1) False)"
proof -
  have r: "readable (Ptr 0) cities" "readable (Ptr 1) cities" "readable (Ptr 2) cities"
    by (simp_all add: readable_Ptr cities_def)
  then have all: "\<forall>a\<in>set [Ptr 0, Ptr 1, Ptr 2]. readable a cities" by simp
  have l: "\<forall>a\<in>set [Ptr 0, Ptr 1, Ptr 2]. contains cities a (Key ''london'')"
    using r by (simp add: contains_eq members_iff) (simp add: cities_def)
  have t: "([Ptr 0, Ptr 1, Ptr 2] \<noteq> ([]::ptr list) \<and> (\<forall>a\<in>set [Ptr 0, Ptr 1, Ptr 2]. contains cities a (Key ''turin'')))
             = False"
    using r by (simp add: contains_eq members_iff) (simp add: cities_def)
  from Intersection_membership [OF all] obtain i w1 where
    i: "Intersection [Ptr 0, Ptr 1, Ptr 2] cities = Some (i, w1)"
    and h: "\<forall>e. returns (Has i e w1)
               ([Ptr 0, Ptr 1, Ptr 2] \<noteq> ([]::ptr list) \<and> (\<forall>a\<in>set [Ptr 0, Ptr 1, Ptr 2]. contains cities a e))"
    by blast
  from h [rule_format, of "Key ''london''"] l have "returns (Has i (Key ''london'') w1) True" by simp
  moreover from h [rule_format, of "Key ''turin''"] have "returns (Has i (Key ''turin'') w1) False"
    by (simp only: t)
  ultimately show ?thesis using r i by blast
qed

text \<open>
  C3. For readable inputs, \<^verbatim>\<open>Union(s1, ..., sn)\<close> returns a set \<open>u\<close> such that, for every \<open>e\<close>,
  \<^verbatim>\<open>u.Has(e)\<close> returns true exactly when at least one input had \<open>e\<close>. With no input
  the result is empty: it has no member and its length is 0.
\<close>

theorem Union_membership:
  assumes "\<forall>a\<in>set sets. readable a w"
  shows "\<exists>u w1. Union_Set sets w = Some (u, w1)
           \<and> (\<forall>e. returns (Has u e w1) (\<exists>a\<in>set sets. contains w a e))
           \<and> (sets = [] \<longrightarrow> returns (Len u w1) 0)"
proof -
  from readable_all [OF assms] obtain as where
    sets: "sets = map Ptr as" and r: "\<forall>a\<in>set as. readable (Ptr a) w"
    by blast
  from Union_Set_eq [OF r] obtain T evs where
    u: "Union_Set (map Ptr as) w = Some (Ptr (length (heap w)),
             w\<lparr>heap := heap w @ [\<lparr>m = T, mu = \<lparr>readers = 0, writer = False\<rparr>\<rparr>],
               events := events w @ evs\<rparr>)"
    and T: "members T = (\<Union>a\<in>set as. members (m (heap w ! a)))"
    and T0: "as = [] \<longrightarrow> T = Dlist.empty"
    by blast
  let ?x = "\<lparr>m = T, mu = \<lparr>readers = 0, writer = False\<rparr>\<rparr>"
  let ?w1 = "w\<lparr>heap := heap w @ [?x], events := events w @ evs\<rparr>"
  have h: "heap ?w1 = heap w @ [?x]" "mu ?x = \<lparr>readers = 0, writer = False\<rparr>" by simp_all
  have c: "\<And>e. (\<exists>p\<in>set sets. contains w p e) \<longleftrightarrow> e \<in> members T"
    using r T by (auto simp: sets contains_eq)
  have 1: "\<forall>e. returns (Has (Ptr (length (heap w))) e ?w1) (\<exists>p\<in>set sets. contains w p e)"
    using readable_fresh(3) [OF h] by (simp add: c)
  have 2: "sets = [] \<longrightarrow> returns (Len (Ptr (length (heap w))) ?w1) 0"
  proof
    assume "sets = []"
    with T0 have "list_of_dlist T = []" by (simp add: sets)
    then show "returns (Len (Ptr (length (heap w))) ?w1) 0"
      using readable_fresh(4) [OF h] by simp
  qed
  from u 1 2 show ?thesis unfolding sets [symmetric] by blast
qed

theorem Union_membership_witness:
  "readable (Ptr 1) cities \<and> readable (Ptr 2) cities
   \<and> (\<exists>u w1. Union_Set [Ptr 1, Ptr 2] cities = Some (u, w1)
         \<and> returns (Has u (Key ''bern'') w1) True \<and> returns (Has u (Key ''sofia'') w1) False)"
proof -
  have r: "readable (Ptr 1) cities" "readable (Ptr 2) cities"
    by (simp_all add: readable_Ptr cities_def)
  then have all: "\<forall>a\<in>set [Ptr 1, Ptr 2]. readable a cities" by simp
  have b: "\<exists>a\<in>set [Ptr 1, Ptr 2]. contains cities a (Key ''bern'')"
    using r by (simp add: contains_eq members_iff) (simp add: cities_def)
  have s: "(\<exists>a\<in>set [Ptr 1, Ptr 2]. contains cities a (Key ''sofia'')) = False"
    using r by (simp add: contains_eq members_iff) (simp add: cities_def)
  from Union_membership [OF all] obtain u w1 where
    u: "Union_Set [Ptr 1, Ptr 2] cities = Some (u, w1)"
    and h: "\<forall>e. returns (Has u e w1) (\<exists>a\<in>set [Ptr 1, Ptr 2]. contains cities a e)"
    by blast
  from h [rule_format, of "Key ''bern''"] b have "returns (Has u (Key ''bern'') w1) True" by simp
  moreover from h [rule_format, of "Key ''sofia''"] have "returns (Has u (Key ''sofia'') w1) False"
    by (simp only: s)
  ultimately show ?thesis using r u by blast
qed

subsection \<open>Difference\<close>

text \<open>
  C7, as the specification states it: when \<open>t\<close> is empty, \<^verbatim>\<open>s.Diff(t)\<close> is
  \<^verbatim>\<open>Equal\<close> to \<open>s\<close>, and two differences of \<open>s\<close> by sets that agree on the
  members of \<open>s\<close> are \<^verbatim>\<open>Equal\<close>. The code does not do this for a set \<open>s\<close> that
  holds a key not equal to itself: for \<open>s = {2.5, NaN}\<close> and the empty \<open>t\<close>, the
  difference has the keys 2.5 and NaN, and \<^verbatim>\<open>Equal\<close> returns false on it and \<open>s\<close>,
  and on it and a second difference of \<open>s\<close> by \<open>t\<close>.
\<close>

theorem Diff_of_set_with_NaN_not_Equal:
  "readable (Ptr 0) floats \<and> readable (Ptr 1) floats
   \<and> returns (Len (Ptr 1) floats) 0
   \<and> returns (do { (d, w1) \<leftarrow> Diff (Ptr 0) (Ptr 1) floats; Equal d (Ptr 0) w1 }) False
   \<and> returns (do { (d, w1) \<leftarrow> Diff (Ptr 0) (Ptr 1) floats;
                   (d', w2) \<leftarrow> Diff (Ptr 0) (Ptr 1) w1;
                   Equal d d' w2 }) False"
proof -
  have "readable (Ptr 0) floats" "readable (Ptr 1) floats" by code_simp+
  moreover have "returns (Len (Ptr 1) floats) 0" by code_simp
  moreover have "returns (do { (d, w1) \<leftarrow> Diff (Ptr 0) (Ptr 1) floats; Equal d (Ptr 0) w1 }) False"
    by code_simp
  moreover have "returns (do { (d, w1) \<leftarrow> Diff (Ptr 0) (Ptr 1) floats;
                   (d', w2) \<leftarrow> Diff (Ptr 0) (Ptr 1) w1;
                   Equal d d' w2 }) False"
    by code_simp
  ultimately show ?thesis by simp
qed

text \<open>
  C7, as the code has it. For readable sets \<open>s\<close> and \<open>t\<close>, \<^verbatim>\<open>s.Diff(t)\<close> returns a
  set \<open>d\<close> such that, for every \<open>e\<close>, \<^verbatim>\<open>d.Has(e)\<close> returns true exactly when \<open>s\<close>
  had \<open>e\<close> and \<open>t\<close> did not. When every key of \<open>s\<close> is equal to itself: if \<open>t\<close> has no
  member, \<^verbatim>\<open>d.Equal(s)\<close> returns true; and members of \<open>t\<close> outside \<open>s\<close> do not
  matter, that is, for every \<open>t'\<close> that agrees with \<open>t\<close> on the members of \<open>s\<close>,
  \<^verbatim>\<open>s.Diff(t')\<close> returns a set that \<^verbatim>\<open>Equal\<close> finds equal to \<open>d\<close>.
\<close>

theorem Diff_membership:
  assumes "readable s w" and "readable t w"
  shows "\<exists>d w1. Diff s t w = Some (d, w1)
           \<and> (\<forall>e. returns (Has d e w1) (contains w s e \<and> \<not> contains w t e))
           \<and> (reflexive_keys s w \<longrightarrow>
                ((\<forall>e. \<not> contains w t e) \<longrightarrow> returns (Equal d s w1) True)
              \<and> (\<forall>t'. readable t' w \<and> (\<forall>e. contains w s e \<longrightarrow> (contains w t e \<longleftrightarrow> contains w t' e))
                   \<longrightarrow> (\<exists>d' w2. Diff s t' w1 = Some (d', w2) \<and> returns (Equal d d' w2) True)))"
proof -
  from assms(1) obtain a where s: "s = Ptr a" and ra: "readable (Ptr a) w" by (rule readableE)
  from assms(2) obtain b where t: "t = Ptr b" and rb: "readable (Ptr b) w" by (rule readableE)
  note rab = ra rb
  let ?S = "m (heap w ! a)" and ?T = "m (heap w ! b)"
  from Diff_eq [OF rab] obtain T where
    d: "Diff (Ptr a) (Ptr b) w = Some (Ptr (length (heap w)),
             w\<lparr>heap := heap w @ [\<lparr>m = T, mu = \<lparr>readers = 0, writer = False\<rparr>\<rparr>],
               events := events w @ [RLocked (Ptr b), RLocked (Ptr a)] @ map (Probed (Ptr b)) (keys_of ?S)
                  @ [RUnlocked (Ptr a), RUnlocked (Ptr b)]\<rparr>)"
    and T: "members T = members ?S - members ?T"
    and pT: "proper ?S \<longrightarrow> proper T"
    by blast
  define x :: "'a Set" where "x = \<lparr>m = T, mu = \<lparr>readers = 0, writer = False\<rparr>\<rparr>"
  define w1 where "w1 = w\<lparr>heap := heap w @ [x],
               events := events w @ [RLocked (Ptr b), RLocked (Ptr a)] @ map (Probed (Ptr b)) (keys_of ?S)
                  @ [RUnlocked (Ptr a), RUnlocked (Ptr b)]\<rparr>"
  have d': "Diff (Ptr a) (Ptr b) w = Some (Ptr (length (heap w)), w1)" using d by (simp add: w1_def x_def)
  have h: "heap w1 = heap w @ [x]" "mu x = \<lparr>readers = 0, writer = False\<rparr>"
    by (simp_all add: w1_def x_def)
  have mx: "m x = T" by (simp add: x_def)
  have pa: "reflexive_keys (Ptr a) w \<longleftrightarrow> proper ?S"
    using ra by (simp add: reflexive_keys_Ptr readable_Ptr)
  have c: "\<And>e. (contains w (Ptr a) e \<and> \<not> contains w (Ptr b) e) \<longleftrightarrow> e \<in> members T"
    using rab T by (auto simp: contains_eq)
  have 1: "\<forall>e. returns (Has (Ptr (length (heap w))) e w1) (contains w (Ptr a) e \<and> \<not> contains w (Ptr b) e)"
    using readable_fresh(3) [OF h] by (simp add: c mx)
  have rd: "readable (Ptr (length (heap w))) w1" by (rule readable_fresh(1) [OF h])
  have rs: "readable (Ptr a) w1" and hs: "heap w1 ! a = heap w ! a"
    using readable_old [OF h(1) rab(1)] by simp_all
  have hd: "heap w1 ! length (heap w) = x" by (simp add: w1_def)
  have 2: "reflexive_keys (Ptr a) w \<longrightarrow>
             ((\<forall>e. \<not> contains w (Ptr b) e) \<longrightarrow> returns (Equal (Ptr (length (heap w))) (Ptr a) w1) True)
           \<and> (\<forall>t'. readable t' w \<and> (\<forall>e. contains w (Ptr a) e \<longrightarrow> (contains w (Ptr b) e \<longleftrightarrow> contains w t' e))
                 \<longrightarrow> (\<exists>d' w2. Diff (Ptr a) t' w1 = Some (d', w2)
                        \<and> returns (Equal (Ptr (length (heap w))) d' w2) True))"
  proof (intro impI conjI allI)
    assume "reflexive_keys (Ptr a) w" and "\<forall>e. \<not> contains w (Ptr b) e"
    then have p: "proper ?S" and "members ?T = {}" using rab by (auto simp: pa contains_eq)
    with T pT have "proper T \<and> proper ?S \<and> members T = members ?S" by simp
    with returns_Equal [OF rd rs] show "returns (Equal (Ptr (length (heap w))) (Ptr a) w1) True"
      by (simp add: hs hd mx)
  next
    fix t' assume "reflexive_keys (Ptr a) w"
    then have p: "proper ?S" by (simp add: pa)
    assume t': "readable t' w
        \<and> (\<forall>e. contains w (Ptr a) e \<longrightarrow> (contains w (Ptr b) e \<longleftrightarrow> contains w t' e))"
    then have "readable t' w" by simp
    then obtain c where tc: "t' = Ptr c" and rc: "readable (Ptr c) w" by (rule readableE)
    from t' have a: "readable (Ptr c) w
        \<and> (\<forall>e. contains w (Ptr a) e \<longrightarrow> (contains w (Ptr b) e \<longleftrightarrow> contains w (Ptr c) e))"
      by (simp add: tc)
    let ?Z = "m (heap w ! c)"
    have rt: "readable (Ptr c) w1" and ht: "heap w1 ! c = heap w ! c"
      using readable_old [OF h(1)] a by simp_all
    from Diff_eq [OF rs rt] obtain T' evs' where
      d2: "Diff (Ptr a) (Ptr c) w1 = Some (Ptr (length (heap w1)),
             w1\<lparr>heap := heap w1 @ [\<lparr>m = T', mu = \<lparr>readers = 0, writer = False\<rparr>\<rparr>],
               events := evs'\<rparr>)"
      and T': "members T' = members (m (heap w1 ! a)) - members (m (heap w1 ! c))"
      and pT': "proper (m (heap w1 ! a)) \<longrightarrow> proper T'"
      by blast
    let ?y = "\<lparr>m = T', mu = \<lparr>readers = 0, writer = False\<rparr>\<rparr>"
    let ?w2 = "w1\<lparr>heap := heap w1 @ [?y], events := evs'\<rparr>"
    have agree: "members ?S - members ?T = members ?S - members ?Z"
      using a rab by (auto simp: contains_eq)
    have same: "proper (m x) \<and> proper (m ?y) \<and> members (m x) = members (m ?y)"
      using T T' agree p pT pT' by (simp add: hs ht mx)
    have "heap ?w2 = heap w @ [x, ?y]" by (simp add: h(1))
    from Equal_two_fresh [OF this] h(2) same
    have "returns (Equal (Ptr (length (heap w))) (Ptr (Suc (length (heap w)))) ?w2) True" by simp
    with d2 show "\<exists>d' w2. Diff (Ptr a) t' w1 = Some (d', w2)
                        \<and> returns (Equal (Ptr (length (heap w))) d' w2) True"
      by (simp add: h(1) tc)
  qed
  from d' 1 2 show ?thesis unfolding s t by blast
qed

theorem Diff_membership_witness:
  "readable (Ptr 0) cities \<and> readable (Ptr 1) cities \<and> reflexive_keys (Ptr 0) cities
   \<and> (\<exists>d w1. Diff (Ptr 0) (Ptr 1) cities = Some (d, w1)
         \<and> returns (Has d (Key ''sofia'') w1) True \<and> returns (Has d (Key ''dresden'') w1) True
         \<and> returns (Has d (Key ''lyon'') w1) True \<and> returns (Has d (Key ''london'') w1) False
         \<and> returns (Has d (Key ''york'') w1) False
         \<and> (\<exists>d' w2. Diff (Ptr 0) (Ptr 1) w1 = Some (d', w2) \<and> returns (Equal d d' w2) True))"
proof -
  have r: "readable (Ptr 0) cities" "readable (Ptr 1) cities" by (simp_all add: readable_Ptr cities_def)
  have k: "reflexive_keys (Ptr 0) cities"
    by (simp add: reflexive_keys_Ptr proper_def keys_of_def) (simp add: cities_def)
  have c: "(contains cities (Ptr 0) (Key ''sofia'') \<and> \<not> contains cities (Ptr 1) (Key ''sofia'')) = True"
    "(contains cities (Ptr 0) (Key ''dresden'') \<and> \<not> contains cities (Ptr 1) (Key ''dresden'')) = True"
    "(contains cities (Ptr 0) (Key ''lyon'') \<and> \<not> contains cities (Ptr 1) (Key ''lyon'')) = True"
    "(contains cities (Ptr 0) (Key ''london'') \<and> \<not> contains cities (Ptr 1) (Key ''london'')) = False"
    "(contains cities (Ptr 0) (Key ''york'') \<and> \<not> contains cities (Ptr 1) (Key ''york'')) = False"
    using r by (simp_all add: contains_eq members_iff) (simp_all add: cities_def)
  from Diff_membership [OF r] obtain d w1 where
    d: "Diff (Ptr 0) (Ptr 1) cities = Some (d, w1)"
    and h: "\<forall>e. returns (Has d e w1) (contains cities (Ptr 0) e \<and> \<not> contains cities (Ptr 1) e)"
    and e: "reflexive_keys (Ptr 0) cities \<longrightarrow>
              ((\<forall>e. \<not> contains cities (Ptr 1) e) \<longrightarrow> returns (Equal d (Ptr 0) w1) True)
            \<and> (\<forall>t'. readable t' cities
                    \<and> (\<forall>e. contains cities (Ptr 0) e \<longrightarrow> (contains cities (Ptr 1) e \<longleftrightarrow> contains cities t' e))
                   \<longrightarrow> (\<exists>d' w2. Diff (Ptr 0) t' w1 = Some (d', w2) \<and> returns (Equal d d' w2) True))"
    by blast
  have has: "returns (Has d (Key ''sofia'') w1) True" "returns (Has d (Key ''dresden'') w1) True"
    "returns (Has d (Key ''lyon'') w1) True" "returns (Has d (Key ''london'') w1) False"
    "returns (Has d (Key ''york'') w1) False"
    using h [rule_format, of "Key ''sofia''"] h [rule_format, of "Key ''dresden''"]
      h [rule_format, of "Key ''lyon''"] h [rule_format, of "Key ''london''"]
      h [rule_format, of "Key ''york''"]
    by (simp_all only: c)
  from e k have "\<forall>t'. readable t' cities
                    \<and> (\<forall>e. contains cities (Ptr 0) e \<longrightarrow> (contains cities (Ptr 1) e \<longleftrightarrow> contains cities t' e))
                   \<longrightarrow> (\<exists>d' w2. Diff (Ptr 0) t' w1 = Some (d', w2) \<and> returns (Equal d d' w2) True)"
    by (rule mp [THEN conjunct2])
  from this [rule_format, of "Ptr 1"] r(2)
  have again: "\<exists>d' w2. Diff (Ptr 0) (Ptr 1) w1 = Some (d', w2) \<and> returns (Equal d d' w2) True"
    by simp
  from r k d has again show ?thesis by blast
qed

subsection \<open>The smallest-first computation of the intersection\<close>

text \<open>
  C2. For readable inputs \<^verbatim>\<open>Intersection\<close> returns; when there are inputs, its first
  loop yields an input \<open>sm\<close> whose length is at most that of every input, and every
  probe \<^verbatim>\<open>_, ok := a.m[e]\<close> that the call makes is for a key \<open>e\<close> of \<open>sm\<close>, one
  that a \<^verbatim>\<open>range\<close> over \<open>sm\<close> visits (a member of \<open>sm\<close> when \<open>e\<close> is equal to
  itself), in one of the inputs \<open>a\<close> (the inner loop runs over all inputs, \<open>sm\<close>
  included). The set it returns is the plain intersection of the specification. The
  order of the inputs does not matter: for every permutation of them,
  \<^verbatim>\<open>Intersection\<close> returns a set that \<^verbatim>\<open>Equal\<close> finds equal to the first result.
\<close>

theorem Intersection_smallest_first:
  assumes "\<forall>a\<in>set sets. readable a w" and "mset sets' = mset sets"
  shows "\<exists>i w1. Intersection sets w = Some (i, w1)
           \<and> (sets \<noteq> [] \<longrightarrow>
                (\<exists>sm v ks. smallest_loop (hd sets) sets (snd (New w)) = Some (sm, v)
                   \<and> sm \<in> set sets
                   \<and> (\<exists>k. returns (Len sm w) k \<and> (\<forall>a\<in>set sets. \<exists>l. returns (Len a w) l \<and> k \<le> l))
                   \<and> keys sm w = Some ks
                   \<and> (\<forall>a e. Probed a e \<in> set (new_events w w1) \<longrightarrow>
                         a \<in> set sets \<and> e \<in> set ks \<and> (eq_key e e \<longrightarrow> contains w sm e))))
           \<and> (\<forall>e. returns (Has i e w1) (Intersection_spec (map (contains w) sets) e))
           \<and> (\<exists>j w2. Intersection sets' w1 = Some (j, w2) \<and> returns (Equal i j w2) True)"
proof -
  from readable_all [OF assms(1)] obtain as where
    sets: "sets = map Ptr as" and r: "\<forall>a\<in>set as. readable (Ptr a) w"
    by blast
  have set_eq: "set sets' = set sets" using assms(2) by (rule mset_eq_setD)
  then have "\<forall>p\<in>set sets'. readable p w" using assms(1) by simp
  from readable_all [OF this] obtain bs where
    sets': "sets' = map Ptr bs" and r': "\<forall>a\<in>set bs. readable (Ptr a) w"
    by blast
  have "Ptr ` set bs = Ptr ` set as" using set_eq by (simp add: sets sets')
  then have set_as: "set bs = set as" by (simp add: inj_image_eq_iff inj_on_def)
  then have nil_eq: "bs = [] \<longleftrightarrow> as = []" by (metis set_empty)
  from Intersection_heap [OF r] obtain T evs where
    i: "Intersection (map Ptr as) w = Some (Ptr (length (heap w)),
             w\<lparr>heap := heap w @ [\<lparr>m = T, mu = \<lparr>readers = 0, writer = False\<rparr>\<rparr>],
               events := events w @ evs\<rparr>)"
    and T: "members T =
             (if as = [] then {} else (\<Inter>a\<in>set as. members (m (heap w ! a))))"
    and pT: "proper T"
    by blast
  define x :: "'a Set" where "x = \<lparr>m = T, mu = \<lparr>readers = 0, writer = False\<rparr>\<rparr>"
  define w1 where "w1 = w\<lparr>heap := heap w @ [x], events := events w @ evs\<rparr>"
  have i': "Intersection (map Ptr as) w = Some (Ptr (length (heap w)), w1)"
    using i by (simp add: w1_def x_def)
  have h: "heap w1 = heap w @ [x]" "mu x = \<lparr>readers = 0, writer = False\<rparr>"
    by (simp_all add: w1_def x_def)
  have mx: "m x = T" by (simp add: x_def)
  have 1: "sets \<noteq> [] \<longrightarrow>
                (\<exists>sm v ks. smallest_loop (hd sets) sets (snd (New w)) = Some (sm, v)
                   \<and> sm \<in> set sets
                   \<and> (\<exists>k. returns (Len sm w) k \<and> (\<forall>p\<in>set sets. \<exists>l. returns (Len p w) l \<and> k \<le> l))
                   \<and> keys sm w = Some ks
                   \<and> (\<forall>p e. Probed p e \<in> set (new_events w w1) \<longrightarrow>
                         p \<in> set sets \<and> e \<in> set ks \<and> (eq_key e e \<longrightarrow> contains w sm e)))"
  proof
    assume "sets \<noteq> []"
    then have nonempty: "as \<noteq> []" by (simp add: sets)
    from Intersection_eq [OF r nonempty] obtain T' evs' sm v where
      i2: "Intersection (map Ptr as) w = Some (Ptr (length (heap w)),
             w\<lparr>heap := heap w @ [\<lparr>m = T', mu = \<lparr>readers = 0, writer = False\<rparr>\<rparr>],
               events := events w @ map (RLocked \<circ> Ptr) as @ evs'
                  @ map (RUnlocked \<circ> Ptr) (rev as)\<rparr>)"
      and sm: "sm \<in> set as"
      and least: "\<forall>a\<in>set as. tsize w sm \<le> tsize w a"
      and sl: "smallest_loop (Ptr (hd as)) (map Ptr as) (snd (New w)) = Some (Ptr sm, v)"
      and probes: "set evs' \<subseteq> {Probed (Ptr a) e | a e. a \<in> set as
                      \<and> e \<in> set (keys_of (m (heap w ! sm)))}"
      by blast
    from i2 i' have "w1 = w\<lparr>heap := heap w @ [\<lparr>m = T', mu = \<lparr>readers = 0, writer = False\<rparr>\<rparr>],
               events := events w @ map (RLocked \<circ> Ptr) as @ evs'
                  @ map (RUnlocked \<circ> Ptr) (rev as)\<rparr>"
      by simp
    then have "events w1 = events w @ map (RLocked \<circ> Ptr) as @ evs'
                  @ map (RUnlocked \<circ> Ptr) (rev as)"
      by simp
    then have evs: "new_events w w1 = map (RLocked \<circ> Ptr) as @ evs'
                  @ map (RUnlocked \<circ> Ptr) (rev as)"
      by (simp add: new_events_def)
    have rsm: "readable (Ptr sm) w" using r sm by simp
    have hd_eq: "hd sets = Ptr (hd as)" using nonempty by (simp add: sets hd_map)
    have sl': "smallest_loop (hd sets) sets (snd (New w)) = Some (Ptr sm, v)"
      using sl by (simp add: hd_eq) (simp add: sets)
    have in_sets: "Ptr sm \<in> set sets" using sm by (simp add: sets)
    have len: "\<exists>k. returns (Len (Ptr sm) w) k
                 \<and> (\<forall>p\<in>set sets. \<exists>l. returns (Len p w) l \<and> k \<le> l)"
    proof (rule exI [of _ "tsize w sm"], rule conjI)
      show "returns (Len (Ptr sm) w) (tsize w sm)" using rsm by (simp add: returns_Len tsize_def)
      show "\<forall>p\<in>set sets. \<exists>l. returns (Len p w) l \<and> tsize w sm \<le> l"
      proof
        fix p assume "p \<in> set sets"
        then obtain a where p: "p = Ptr a" and a: "a \<in> set as" by (auto simp: sets)
        with r have "readable (Ptr a) w" by simp
        then have "returns (Len (Ptr a) w) (tsize w a)" by (simp add: returns_Len tsize_def)
        moreover from least a have "tsize w sm \<le> tsize w a" by simp
        ultimately show "\<exists>l. returns (Len p w) l \<and> tsize w sm \<le> l" unfolding p by blast
      qed
    qed
    have ks: "keys (Ptr sm) w = Some (keys_of (m (heap w ! sm)))"
      using rsm by (simp add: keys_eq readable_Ptr)
    have pr: "\<forall>p e. Probed p e \<in> set (new_events w w1) \<longrightarrow>
                 p \<in> set sets \<and> e \<in> set (keys_of (m (heap w ! sm)))
                   \<and> (eq_key e e \<longrightarrow> contains w (Ptr sm) e)"
    proof (intro allI impI)
      fix p e assume "Probed p e \<in> set (new_events w w1)"
      then have "Probed p e \<in> set evs'" unfolding evs by auto
      with probes show "p \<in> set sets \<and> e \<in> set (keys_of (m (heap w ! sm)))
                   \<and> (eq_key e e \<longrightarrow> contains w (Ptr sm) e)"
        using rsm by (auto simp: contains_eq sets members_keys)
    qed
    from sl' in_sets len ks pr
    show "\<exists>sm v ks. smallest_loop (hd sets) sets (snd (New w)) = Some (sm, v)
                   \<and> sm \<in> set sets
                   \<and> (\<exists>k. returns (Len sm w) k \<and> (\<forall>p\<in>set sets. \<exists>l. returns (Len p w) l \<and> k \<le> l))
                   \<and> keys sm w = Some ks
                   \<and> (\<forall>p e. Probed p e \<in> set (new_events w w1) \<longrightarrow>
                         p \<in> set sets \<and> e \<in> set ks \<and> (eq_key e e \<longrightarrow> contains w sm e))"
      by blast
  qed
  have spec: "\<And>e. Intersection_spec (map (contains w) sets) e \<longleftrightarrow> e \<in> members T"
    using r T by (auto simp: Intersection_spec_def list_all_iff contains_eq sets)
  have 2: "\<forall>e. returns (Has (Ptr (length (heap w))) e w1)
               (Intersection_spec (map (contains w) sets) e)"
    using readable_fresh(3) [OF h] by (simp add: spec mx)
  have r1: "\<forall>a\<in>set bs. readable (Ptr a) w1"
    using readable_old(1) [OF h(1)] r' by simp
  have old: "\<And>a. a \<in> set as \<Longrightarrow> heap w1 ! a = heap w ! a"
    using readable_old(2) [OF h(1)] r by simp
  from Intersection_heap [OF r1] obtain T2 evs2 where
    j: "Intersection (map Ptr bs) w1 = Some (Ptr (length (heap w1)),
             w1\<lparr>heap := heap w1 @ [\<lparr>m = T2, mu = \<lparr>readers = 0, writer = False\<rparr>\<rparr>],
               events := events w1 @ evs2\<rparr>)"
    and T2: "members T2 =
             (if bs = [] then {} else (\<Inter>a\<in>set bs. members (m (heap w1 ! a))))"
    and pT2: "proper T2"
    by blast
  let ?y = "\<lparr>m = T2, mu = \<lparr>readers = 0, writer = False\<rparr>\<rparr>"
  let ?w2 = "w1\<lparr>heap := heap w1 @ [?y], events := events w1 @ evs2\<rparr>"
  have same: "proper (m x) \<and> proper (m ?y) \<and> members (m x) = members (m ?y)"
    using T T2 pT pT2 old by (simp add: mx set_as nil_eq)
  have "heap ?w2 = heap w @ [x, ?y]" by (simp add: h(1))
  from Equal_two_fresh [OF this] h(2) same
  have "returns (Equal (Ptr (length (heap w))) (Ptr (Suc (length (heap w)))) ?w2) True" by simp
  with j have 3: "\<exists>j w2. Intersection sets' w1 = Some (j, w2)
        \<and> returns (Equal (Ptr (length (heap w))) j w2) True"
    by (simp add: h(1) sets')
  from i' 1 2 3 show ?thesis unfolding sets [symmetric] by blast
qed

theorem Intersection_smallest_first_witness:
  "readable (Ptr 0) cities \<and> readable (Ptr 1) cities \<and> readable (Ptr 2) cities
   \<and> mset [Ptr 2, Ptr 0, Ptr 1] = mset [Ptr 0, Ptr 1, Ptr 2]
   \<and> (\<exists>i w1 j w2. Intersection [Ptr 0, Ptr 1, Ptr 2] cities = Some (i, w1)
         \<and> (\<exists>v. smallest_loop (Ptr 0) [Ptr 0, Ptr 1, Ptr 2] (snd (New cities)) = Some (Ptr 2, v))
         \<and> returns (Has i (Key ''london'') w1) True
         \<and> Intersection [Ptr 2, Ptr 0, Ptr 1] w1 = Some (j, w2) \<and> returns (Equal i j w2) True)"
proof -
  have r: "readable (Ptr 0) cities" "readable (Ptr 1) cities" "readable (Ptr 2) cities"
    by (simp_all add: readable_Ptr cities_def)
  then have all: "\<forall>a\<in>set [Ptr 0, Ptr 1, Ptr 2]. readable a cities" by simp
  have p: "mset [Ptr 2, Ptr 0, Ptr 1] = mset [Ptr 0, Ptr 1, Ptr 2]" by simp
  have l: "returns (Len (Ptr 0) cities) 6" "returns (Len (Ptr 1) cities) 4" "returns (Len (Ptr 2) cities) 2"
    using r by (simp_all add: returns_Len) (simp_all add: cities_def)
  have lu: "\<And>a k k'. readable (Ptr a) cities \<Longrightarrow> returns (Len (Ptr a) cities) k \<Longrightarrow>
     returns (Len (Ptr a) cities) k' \<Longrightarrow> k = k'"
    by (simp add: returns_Len)
  have c: "Intersection_spec (map (contains cities) [Ptr 0, Ptr 1, Ptr 2]) (Key ''london'') = True"
    using r by (simp add: Intersection_spec_def contains_eq members_iff) (simp add: cities_def)
  have ne: "[Ptr 0, Ptr 1, Ptr 2] \<noteq> ([]::ptr list)" by simp
  from Intersection_smallest_first [OF all p] obtain i w1 where
    i: "Intersection [Ptr 0, Ptr 1, Ptr 2] cities = Some (i, w1)"
    and first: "[Ptr 0, Ptr 1, Ptr 2] \<noteq> ([]::ptr list) \<longrightarrow>
                (\<exists>sm v ks. smallest_loop (hd [Ptr 0, Ptr 1, Ptr 2]) [Ptr 0, Ptr 1, Ptr 2] (snd (New cities)) = Some (sm, v)
                   \<and> sm \<in> set [Ptr 0, Ptr 1, Ptr 2]
                   \<and> (\<exists>k. returns (Len sm cities) k
                        \<and> (\<forall>a\<in>set [Ptr 0, Ptr 1, Ptr 2]. \<exists>l. returns (Len a cities) l \<and> k \<le> l))
                   \<and> keys sm cities = Some ks
                   \<and> (\<forall>a e. Probed a e \<in> set (new_events cities w1) \<longrightarrow>
                         a \<in> set [Ptr 0, Ptr 1, Ptr 2] \<and> e \<in> set ks
                           \<and> (eq_key e e \<longrightarrow> contains cities sm e)))"
    and h: "\<forall>e. returns (Has i e w1) (Intersection_spec (map (contains cities) [Ptr 0, Ptr 1, Ptr 2]) e)"
    and perm: "\<exists>j w2. Intersection [Ptr 2, Ptr 0, Ptr 1] w1 = Some (j, w2) \<and> returns (Equal i j w2) True"
    by blast
  from first ne obtain sm v k where
    sl: "smallest_loop (hd [Ptr 0, Ptr 1, Ptr 2]) [Ptr 0, Ptr 1, Ptr 2] (snd (New cities)) = Some (sm, v)"
    and sm: "sm \<in> set [Ptr 0, Ptr 1, Ptr 2]"
    and k: "returns (Len sm cities) k"
    and least: "\<forall>a\<in>set [Ptr 0, Ptr 1, Ptr 2]. \<exists>l. returns (Len a cities) l \<and> k \<le> l"
    by blast
  from least obtain l2 where l2: "returns (Len (Ptr 2) cities) l2" and kl: "k \<le> l2" by auto
  from lu [OF r(3) l(3) l2] kl have k2: "k \<le> 2" by simp
  have "sm = Ptr 2"
  proof (rule ccontr)
    assume "sm \<noteq> Ptr 2"
    with sm have "sm = Ptr 0 \<or> sm = Ptr 1" by auto
    then show False
    proof
      assume "sm = Ptr 0"
      with k have "returns (Len (Ptr 0) cities) k" by simp
      from lu [OF r(1) l(1) this] have "k = 6" by simp
      with k2 show False by simp
    next
      assume "sm = Ptr 1"
      with k have "returns (Len (Ptr 1) cities) k" by simp
      from lu [OF r(2) l(2) this] have "k = 4" by simp
      with k2 show False by simp
    qed
  qed
  with sl have s2: "\<exists>v. smallest_loop (Ptr 0) [Ptr 0, Ptr 1, Ptr 2] (snd (New cities)) = Some (Ptr 2, v)" by simp
  from h [rule_format, of "Key ''london''"] have hl: "returns (Has i (Key ''london'') w1) True"
    by (simp only: c)
  from perm obtain j w2 where
    "Intersection [Ptr 2, Ptr 0, Ptr 1] w1 = Some (j, w2)" "returns (Equal i j w2) True"
    by blast
  with r p i s2 hl show ?thesis by blast
qed

subsection \<open>Results are new sets\<close>

text \<open>
  C10. For unlocked inputs, the sets that \<^verbatim>\<open>Union\<close>, \<^verbatim>\<open>Intersection\<close> and
  \<^verbatim>\<open>Diff\<close> return are newly
  allocated and detached from the inputs: whatever insertions and removals are applied
  to the result afterwards, every input contains what it contained before the call; and
  whatever insertions and removals are applied to an input afterwards, the result
  contains what it contained when it was returned.
\<close>

theorem results_are_fresh:
  assumes "\<forall>a\<in>set sets. unlocked a w" and "unlocked s w" and "unlocked t w"
  shows "fresh_result (Union_Set sets w) sets w
       \<and> fresh_result (Intersection sets w) sets w
       \<and> fresh_result (Diff s t w) [s, t] w"
proof -
  from assms(1) have "\<forall>p\<in>set sets. readable p w" by (simp add: unlocked_readable_ptr)
  from readable_all [OF this] obtain as where sets: "sets = map Ptr as" by blast
  from assms(1) have ua: "\<forall>a\<in>set as. unlocked (Ptr a) w" by (simp add: sets)
  then have r: "\<forall>a\<in>set as. readable (Ptr a) w" by (simp add: unlocked_readable)
  from assms(2) obtain a where s: "s = Ptr a" and us: "unlocked (Ptr a) w" by (rule unlockedE)
  from assms(3) obtain b where t: "t = Ptr b" and ut: "unlocked (Ptr b) w" by (rule unlockedE)
  have st: "\<forall>c\<in>set [a, b]. unlocked (Ptr c) w" using us ut by simp
  from Union_Set_eq [OF r] obtain T1 evs1 where
    u: "Union_Set (map Ptr as) w = Some (Ptr (length (heap w)),
             w\<lparr>heap := heap w @ [\<lparr>m = T1, mu = \<lparr>readers = 0, writer = False\<rparr>\<rparr>],
               events := events w @ evs1\<rparr>)"
    by blast
  have 1: "fresh_result (Union_Set (map Ptr as) w) (map Ptr as) w"
    by (rule fresh_resultI [OF u _ _ ua,
          where x = "\<lparr>m = T1, mu = \<lparr>readers = 0, writer = False\<rparr>\<rparr>"]) simp_all
  from Intersection_heap [OF r] obtain T2 evs2 where
    i: "Intersection (map Ptr as) w = Some (Ptr (length (heap w)),
             w\<lparr>heap := heap w @ [\<lparr>m = T2, mu = \<lparr>readers = 0, writer = False\<rparr>\<rparr>],
               events := events w @ evs2\<rparr>)"
    by blast
  have 2: "fresh_result (Intersection (map Ptr as) w) (map Ptr as) w"
    by (rule fresh_resultI [OF i _ _ ua,
          where x = "\<lparr>m = T2, mu = \<lparr>readers = 0, writer = False\<rparr>\<rparr>"]) simp_all
  from Diff_eq [OF unlocked_readable [OF us] unlocked_readable [OF ut]]
  obtain T3 evs3 where
    d: "Diff (Ptr a) (Ptr b) w = Some (Ptr (length (heap w)),
             w\<lparr>heap := heap w @ [\<lparr>m = T3, mu = \<lparr>readers = 0, writer = False\<rparr>\<rparr>],
               events := evs3\<rparr>)"
    by blast
  have 3: "fresh_result (Diff (Ptr a) (Ptr b) w) (map Ptr [a, b]) w"
    by (rule fresh_resultI [OF d _ _ st,
          where x = "\<lparr>m = T3, mu = \<lparr>readers = 0, writer = False\<rparr>\<rparr>"]) simp_all
  from 1 2 3 show ?thesis unfolding sets s t by simp
qed

theorem results_are_fresh_witness:
  "unlocked (Ptr 0) cities \<and> unlocked (Ptr 1) cities \<and> unlocked (Ptr 2) cities
   \<and> (\<exists>r w1 w2 w3. Union_Set [Ptr 0, Ptr 1, Ptr 2] cities = Some (r, w1)
         \<and> mutate r [Insert (Key ''paris''), Remove (Key ''sofia'')] w1 = Some w2
         \<and> returns (Has (Ptr 0) (Key ''paris'') w2) False \<and> returns (Has (Ptr 0) (Key ''sofia'') w2) True
         \<and> mutate (Ptr 2) [Remove (Key ''bern'')] w1 = Some w3
         \<and> returns (Has r (Key ''bern'') w3) (contains w1 r (Key ''bern'')))
   \<and> (\<exists>r w1 w2. Intersection [Ptr 0, Ptr 1, Ptr 2] cities = Some (r, w1)
         \<and> mutate r [Remove (Key ''london'')] w1 = Some w2
         \<and> returns (Has (Ptr 1) (Key ''london'') w2) True)
   \<and> (\<exists>r w1 w2. Diff (Ptr 0) (Ptr 1) cities = Some (r, w1)
         \<and> mutate r [Insert (Key ''york'')] w1 = Some w2
         \<and> returns (Has (Ptr 0) (Key ''york'') w2) False)"
proof -
  have u: "unlocked (Ptr 0) cities" "unlocked (Ptr 1) cities" "unlocked (Ptr 2) cities"
    by (simp_all add: unlocked_Ptr cities_def)
  then have all: "\<forall>a\<in>set [Ptr 0, Ptr 1, Ptr 2]. unlocked a cities" by simp
  have c: "contains cities (Ptr 0) (Key ''paris'') = False" "contains cities (Ptr 0) (Key ''sofia'') = True"
    "contains cities (Ptr 1) (Key ''london'') = True" "contains cities (Ptr 0) (Key ''york'') = False"
    using u [THEN unlocked_readable] by (simp_all add: contains_eq members_iff) (simp_all add: cities_def)
  note F = results_are_fresh [OF all u(1) u(2), unfolded fresh_result_def]
  from F obtain r1 v1 where
    a1: "Union_Set [Ptr 0, Ptr 1, Ptr 2] cities = Some (r1, v1)"
    and b1: "\<forall>ops. \<exists>w2. mutate r1 ops v1 = Some w2
               \<and> (\<forall>a\<in>set [Ptr 0, Ptr 1, Ptr 2]. \<forall>e. returns (Has a e w2) (contains cities a e))"
    and c1: "\<forall>a\<in>set [Ptr 0, Ptr 1, Ptr 2]. \<forall>ops. \<exists>w2. mutate a ops v1 = Some w2
               \<and> (\<forall>e. returns (Has r1 e w2) (contains v1 r1 e))"
    by blast
  from b1 obtain w2 where
    m1: "mutate r1 [Insert (Key ''paris''), Remove (Key ''sofia'')] v1 = Some w2"
    and h1: "\<forall>a\<in>set [Ptr 0, Ptr 1, Ptr 2]. \<forall>e. returns (Has a e w2) (contains cities a e)"
    by blast
  from h1 have "returns (Has (Ptr 0) (Key ''paris'') w2) (contains cities (Ptr 0) (Key ''paris''))"
    and "returns (Has (Ptr 0) (Key ''sofia'') w2) (contains cities (Ptr 0) (Key ''sofia''))"
    by simp_all
  then have k1: "returns (Has (Ptr 0) (Key ''paris'') w2) False" "returns (Has (Ptr 0) (Key ''sofia'') w2) True"
    by (simp_all only: c)
  from c1 have "\<forall>ops. \<exists>w2. mutate (Ptr 2) ops v1 = Some w2
               \<and> (\<forall>e. returns (Has r1 e w2) (contains v1 r1 e))"
    by simp
  then obtain w3 where
    m1': "mutate (Ptr 2) [Remove (Key ''bern'')] v1 = Some w3"
    and k1': "returns (Has r1 (Key ''bern'') w3) (contains v1 r1 (Key ''bern''))"
    by blast
  from a1 m1 k1 m1' k1'
  have 1: "\<exists>r w1 w2 w3. Union_Set [Ptr 0, Ptr 1, Ptr 2] cities = Some (r, w1)
         \<and> mutate r [Insert (Key ''paris''), Remove (Key ''sofia'')] w1 = Some w2
         \<and> returns (Has (Ptr 0) (Key ''paris'') w2) False \<and> returns (Has (Ptr 0) (Key ''sofia'') w2) True
         \<and> mutate (Ptr 2) [Remove (Key ''bern'')] w1 = Some w3
         \<and> returns (Has r (Key ''bern'') w3) (contains w1 r (Key ''bern''))"
    by blast
  from F obtain r2 v2 where
    a2: "Intersection [Ptr 0, Ptr 1, Ptr 2] cities = Some (r2, v2)"
    and b2: "\<forall>ops. \<exists>w2. mutate r2 ops v2 = Some w2
               \<and> (\<forall>a\<in>set [Ptr 0, Ptr 1, Ptr 2]. \<forall>e. returns (Has a e w2) (contains cities a e))"
    by blast
  from b2 obtain w4 where
    m2: "mutate r2 [Remove (Key ''london'')] v2 = Some w4"
    and h2: "\<forall>a\<in>set [Ptr 0, Ptr 1, Ptr 2]. \<forall>e. returns (Has a e w4) (contains cities a e)"
    by blast
  from h2 have "returns (Has (Ptr 1) (Key ''london'') w4) (contains cities (Ptr 1) (Key ''london''))" by simp
  then have k2: "returns (Has (Ptr 1) (Key ''london'') w4) True" by (simp only: c)
  from a2 m2 k2
  have 2: "\<exists>r w1 w2. Intersection [Ptr 0, Ptr 1, Ptr 2] cities = Some (r, w1)
         \<and> mutate r [Remove (Key ''london'')] w1 = Some w2
         \<and> returns (Has (Ptr 1) (Key ''london'') w2) True"
    by blast
  from F obtain r3 v3 where
    a3: "Diff (Ptr 0) (Ptr 1) cities = Some (r3, v3)"
    and b3: "\<forall>ops. \<exists>w2. mutate r3 ops v3 = Some w2
               \<and> (\<forall>a\<in>set [Ptr 0, Ptr 1]. \<forall>e. returns (Has a e w2) (contains cities a e))"
    by blast
  from b3 obtain w5 where
    m3: "mutate r3 [Insert (Key ''york'')] v3 = Some w5"
    and h3: "\<forall>a\<in>set [Ptr 0, Ptr 1]. \<forall>e. returns (Has a e w5) (contains cities a e)"
    by blast
  from h3 have "returns (Has (Ptr 0) (Key ''york'') w5) (contains cities (Ptr 0) (Key ''york''))" by simp
  then have k3: "returns (Has (Ptr 0) (Key ''york'') w5) False" by (simp only: c)
  from a3 m3 k3
  have 3: "\<exists>r w1 w2. Diff (Ptr 0) (Ptr 1) cities = Some (r, w1)
         \<and> mutate r [Insert (Key ''york'')] w1 = Some w2
         \<and> returns (Has (Ptr 0) (Key ''york'') w2) False"
    by blast
  from u 1 2 3 show ?thesis by blast
qed

end
